theory Spec2Isabelle
  imports Main
begin

section \<open>The connection acceptor of \<^verbatim>\<open>tcp-server/server.go\<close>\<close>

text \<open>
  The program binds a TCP listener, accepts connections in an endless loop and starts one
  goroutine \<^verbatim>\<open>do(conn)\<close> per accepted connection. Everything the program does is an effect
  on the outside world, so the embedding threads an explicit \<open>world\<close> through every
  statement: the store of connection objects, the results the operating system will give
  to \<^verbatim>\<open>Listen\<close> and \<^verbatim>\<open>Accept\<close>, the trace of the calls made so far, and the exit status
  of the process. Each source statement is one function on that state; the body of a
  function is the sequence of its statements, and the process is the interleaving of the
  acceptor with the goroutines it has started.

  A call that blocks is not a state of its own: a goroutine blocked in \<^verbatim>\<open>Read\<close>,
  \<^verbatim>\<open>Sleep\<close> or \<^verbatim>\<open>Write\<close> is one the scheduler does not pick, and the call is recorded when
  it returns. Only \<^verbatim>\<open>Accept\<close> with no client pending is modelled as a statement that
  cannot move, since the clients still to come are part of the world.

  Left out: the global \<^verbatim>\<open>start\<close> and the value of \<^verbatim>\<open>time.Since(start)\<close> that the second
  \<^verbatim>\<open>Println\<close> prints (only the fixed text of the message is recorded), and the timestamp
  prefix of the logger.
\<close>

subsection \<open>Connections and the world\<close>

type_synonym bytes = string

datatype err = Err string

fun Error :: "err \<Rightarrow> string" where
  "Error (Err m) = m"

text \<open>
  What a client does, as far as the server can see: the bytes it sends, how many of them
  are in the socket's receive queue when the server reads, and whether the operating
  system fails the server's read or write. A failing write reports the number of bytes
  that still went out.
\<close>

record client =
  request :: bytes
  arrived :: nat
  read_fail :: "err option"
  write_fail :: "(nat \<times> err) option"

text \<open>A connection object (\<^verbatim>\<open>net.Conn\<close>): created by \<^verbatim>\<open>Accept\<close>, referred to by its index
  in the store.\<close>

record conn =
  peer :: client
  unread :: bytes
  sent :: bytes
  closed :: bool

text \<open>What the next \<^verbatim>\<open>Accept\<close> will return.\<close>

datatype accept_result = Incoming client | AcceptFailed err

text \<open>
  The calls the program makes, in the order they happen: \<^verbatim>\<open>net.Listen\<close> with its network and
  address, \<^verbatim>\<open>fmt.Println\<close> with its text, \<^verbatim>\<open>Accept\<close> with the connection it returned
  (\<open>None\<close> for an error), \<^verbatim>\<open>go do(conn)\<close>, \<^verbatim>\<open>conn.Read\<close> with the length of its buffer,
  \<^verbatim>\<open>time.Sleep\<close> with its duration in nanoseconds, \<^verbatim>\<open>conn.Write\<close> with the bytes passed,
  \<^verbatim>\<open>conn.Close\<close>, and the message of \<^verbatim>\<open>log.Fatal\<close>.
\<close>

datatype event =
    EvListen string string
  | EvPrintln string
  | EvAccept "nat option"
  | EvGo nat
  | EvRead nat nat
  | EvSleep nat
  | EvWrite nat bytes
  | EvClose nat
  | EvLogFatal string

text \<open>
  The world: whether binding the port fails, the results of the accepts still to come,
  the connection objects created so far, the calls made so far, and the exit status once
  \<^verbatim>\<open>os.Exit\<close> has been called.
\<close>

record world =
  listen_fail :: "err option"
  backlog :: "accept_result list"
  conns :: "conn list"
  trace :: "event list"
  exited :: "nat option"

definition emit :: "event \<Rightarrow> world \<Rightarrow> world" where
  "emit e w = w\<lparr>trace := trace w @ [e]\<rparr>"

definition upd_conn :: "nat \<Rightarrow> (conn \<Rightarrow> conn) \<Rightarrow> world \<Rightarrow> world" where
  "upd_conn r f w =
     (if r < length (conns w) then w\<lparr>conns := (conns w)[r := f (conns w ! r)]\<rparr> else w)"

subsection \<open>The library calls the program makes\<close>

definition ErrInvalid :: err where
  "ErrInvalid = Err ''invalid argument''"

definition ErrClosed :: err where
  "ErrClosed = Err ''use of closed network connection''"

text \<open>\<^verbatim>\<open>os.Exit(code)\<close>: the process is over; deferred calls are not run.\<close>

definition os_Exit :: "nat \<Rightarrow> world \<Rightarrow> world" where
  "os_Exit code w = w\<lparr>exited := Some code\<rparr>"

text \<open>\<^verbatim>\<open>log.Fatal(v...)\<close> prints its operands (no space is added next to a string operand)
  and calls \<^verbatim>\<open>os.Exit(1)\<close>.\<close>

definition log_Fatal :: "string list \<Rightarrow> world \<Rightarrow> world" where
  "log_Fatal vs w = os_Exit 1 (emit (EvLogFatal (concat vs)) w)"

definition fmt_Println :: "string \<Rightarrow> world \<Rightarrow> world" where
  "fmt_Println s w = emit (EvPrintln s) w"

definition second :: nat where
  "second = 1000000000"

definition time_Sleep :: "nat \<Rightarrow> world \<Rightarrow> world" where
  "time_Sleep d w = emit (EvSleep d) w"

definition make_bytes :: "nat \<Rightarrow> bytes" where
  "make_bytes n = replicate n (CHR 0x00)"

definition net_Listen :: "string \<Rightarrow> string \<Rightarrow> world \<Rightarrow> err option \<times> world" where
  "net_Listen network address w = (listen_fail w, emit (EvListen network address) w)"

definition open_conn :: "client \<Rightarrow> conn" where
  "open_conn cl = \<lparr>peer = cl, unread = request cl, sent = [], closed = False\<rparr>"

text \<open>\<^verbatim>\<open>l.Accept()\<close> blocks while no client is pending (\<open>None\<close>: the caller cannot move);
  otherwise it fails, or returns a new connection object.\<close>

definition listener_Accept :: "world \<Rightarrow> ((err + nat) \<times> world) option" where
  "listener_Accept w =
     (case backlog w of
        [] \<Rightarrow> None
      | AcceptFailed e # rest \<Rightarrow> Some (Inl e, emit (EvAccept None) (w\<lparr>backlog := rest\<rparr>))
      | Incoming cl # rest \<Rightarrow>
          Some (Inr (length (conns w)),
                emit (EvAccept (Some (length (conns w))))
                  (w\<lparr>backlog := rest,
                     conns := conns w @ [open_conn cl]\<rparr>)))"

text \<open>The error \<^verbatim>\<open>conn.Read\<close> and \<^verbatim>\<open>conn.Write\<close> return on connection \<open>r\<close>, if any.\<close>

definition read_err :: "nat \<Rightarrow> world \<Rightarrow> err option" where
  "read_err r w =
     (if r < length (conns w)
      then (if closed (conns w ! r) then Some ErrClosed else read_fail (peer (conns w ! r)))
      else Some ErrInvalid)"

definition write_err :: "nat \<Rightarrow> world \<Rightarrow> (nat \<times> err) option" where
  "write_err r w =
     (if r < length (conns w)
      then (if closed (conns w ! r) then Some (0, ErrClosed)
            else write_fail (peer (conns w ! r)))
      else Some (0, ErrInvalid))"

text \<open>\<^verbatim>\<open>conn.Read(b)\<close> reads up to \<open>length b\<close> bytes of what has arrived into the front of
  \<open>b\<close> and returns the buffer, the count and the error.\<close>

definition conn_Read :: "nat \<Rightarrow> bytes \<Rightarrow> world \<Rightarrow> (bytes \<times> nat \<times> err option) \<times> world" where
  "conn_Read r b w =
     (let w1 = emit (EvRead r (length b)) w in
      case read_err r w of
        Some e \<Rightarrow> ((b, 0, Some e), w1)
      | None \<Rightarrow>
          (let c = conns w ! r;
               n = min (length b) (min (arrived (peer c)) (length (unread c)))
           in ((take n (unread c) @ drop n b, n, None),
               upd_conn r (\<lambda>c. c\<lparr>unread := drop n (unread c)\<rparr>) w1)))"

definition conn_Write :: "nat \<Rightarrow> bytes \<Rightarrow> world \<Rightarrow> (nat \<times> err option) \<times> world" where
  "conn_Write r b w =
     (let w1 = emit (EvWrite r b) w in
      case write_err r w of
        Some (n, e) \<Rightarrow>
          ((min n (length b), Some e), upd_conn r (\<lambda>c. c\<lparr>sent := sent c @ take n b\<rparr>) w1)
      | None \<Rightarrow> ((length b, None), upd_conn r (\<lambda>c. c\<lparr>sent := sent c @ b\<rparr>) w1))"

definition conn_Close :: "nat \<Rightarrow> world \<Rightarrow> err option \<times> world" where
  "conn_Close r w =
     (let w1 = emit (EvClose r) w in
      if r < length (conns w)
      then (if closed (conns w ! r) then (Some ErrClosed, w1)
            else (None, upd_conn r (\<lambda>c. c\<lparr>closed := True\<rparr>) w1))
      else (Some ErrInvalid, w1))"

subsection \<open>The handler \<^verbatim>\<open>do\<close>\<close>

text \<open>
  Where a goroutine running \<^verbatim>\<open>do\<close> stands: before line 33 (the read, with the allocation
  of line 31 and the check of lines 34 to 36), before line 38, before line 40, before
  line 41, before the return of line 42, returned, or stopped in \<^verbatim>\<open>log.Fatal\<close>.
\<close>

datatype hpc = H_Read | H_Sleep | H_Write | H_Defer | H_Return | H_Done | H_Dead

text \<open>A deferred call: the only one the program defers is \<^verbatim>\<open>conn.Close()\<close>, with the
  connection it was deferred for.\<close>

datatype deferred = DeferClose nat

text \<open>A goroutine running \<^verbatim>\<open>do\<close>: its argument \<^verbatim>\<open>conn\<close>, its local \<^verbatim>\<open>buffer\<close>, its stack of
  deferred calls (last pushed first) and where it stands.\<close>

record task =
  h_conn :: nat
  h_buffer :: bytes
  h_deferred :: "deferred list"
  h_pc :: hpc

definition new_task :: "nat \<Rightarrow> task" where
  "new_task c = \<lparr>h_conn = c, h_buffer = [], h_deferred = [], h_pc = H_Read\<rparr>"

text \<open>The bytes of line 40, \<^verbatim>\<open>"HTTP/1.1 200 OK\r\n\r\nHey Client!\r\n"\<close>.\<close>

definition CRLF :: string where
  "CRLF = [CHR 0x0D, CHR 0x0A]"

definition response :: bytes where
  "response = ''HTTP/1.1 200 OK'' @ CRLF @ CRLF @ ''Hey Client!'' @ CRLF"

text \<open>Lines 31 to 36: allocate the buffer, read once, and on an error call \<^verbatim>\<open>log.Fatal\<close>.
  The count returned by the read is discarded.\<close>

definition do_read :: "task \<Rightarrow> world \<Rightarrow> task \<times> world" where
  "do_read t w =
     (let buffer = make_bytes 1024;
          ((buffer', _, err), w1) = conn_Read (h_conn t) buffer w
      in case err of
           Some e \<Rightarrow>
             (t\<lparr>h_buffer := buffer', h_pc := H_Dead\<rparr>,
              log_Fatal [''error reading from connection: '', Error e] w1)
         | None \<Rightarrow> (t\<lparr>h_buffer := buffer', h_pc := H_Sleep\<rparr>, w1))"

text \<open>Line 38.\<close>

definition do_sleep :: "task \<Rightarrow> world \<Rightarrow> task \<times> world" where
  "do_sleep t w = (t\<lparr>h_pc := H_Write\<rparr>, time_Sleep (second * 8) w)"

text \<open>Line 40: both results of the write are discarded.\<close>

definition do_write :: "task \<Rightarrow> world \<Rightarrow> task \<times> world" where
  "do_write t w =
     (let (_, w1) = conn_Write (h_conn t) response w in (t\<lparr>h_pc := H_Defer\<rparr>, w1))"

text \<open>Line 41: the call is pushed on the goroutine's stack of deferred calls.\<close>

definition do_defer :: "task \<Rightarrow> world \<Rightarrow> task \<times> world" where
  "do_defer t w = (t\<lparr>h_deferred := DeferClose (h_conn t) # h_deferred t, h_pc := H_Return\<rparr>, w)"

fun run_deferred :: "deferred list \<Rightarrow> world \<Rightarrow> world" where
  "run_deferred [] w = w"
| "run_deferred (DeferClose r # ds) w = run_deferred ds (snd (conn_Close r w))"

text \<open>Line 42: the function returns, which runs the deferred calls, last pushed first.\<close>

definition do_return :: "task \<Rightarrow> world \<Rightarrow> task \<times> world" where
  "do_return t w = (t\<lparr>h_deferred := [], h_pc := H_Done\<rparr>, run_deferred (h_deferred t) w)"

text \<open>The whole call \<^verbatim>\<open>do(conn)\<close>, run without interruption. After \<^verbatim>\<open>log.Fatal\<close> nothing
  more of the function runs.\<close>

definition do :: "nat \<Rightarrow> world \<Rightarrow> task \<times> world" where
  "do c w =
     (let (t1, w1) = do_read (new_task c) w in
      if h_pc t1 = H_Dead then (t1, w1)
      else
        (let (t2, w2) = do_sleep t1 w1;
             (t3, w3) = do_write t2 w2;
             (t4, w4) = do_defer t3 w3
         in do_return t4 w4))"

text \<open>One statement of a goroutine running \<^verbatim>\<open>do\<close>.\<close>

definition hstep :: "task \<Rightarrow> world \<Rightarrow> task \<times> world" where
  "hstep t w =
     (case h_pc t of
        H_Read \<Rightarrow> do_read t w
      | H_Sleep \<Rightarrow> do_sleep t w
      | H_Write \<Rightarrow> do_write t w
      | H_Defer \<Rightarrow> do_defer t w
      | H_Return \<Rightarrow> do_return t w
      | H_Done \<Rightarrow> (t, w)
      | H_Dead \<Rightarrow> (t, w))"

subsection \<open>The acceptor \<^verbatim>\<open>main\<close>\<close>

text \<open>
  Where \<^verbatim>\<open>main\<close> stands: before line 45, before line 51, before line 53, before line 58,
  before line 60, or stopped in \<^verbatim>\<open>log.Fatal\<close>. The loop has no exit, so there is no
  position after it.
\<close>

datatype mpc = M_Listen | M_Waiting | M_Accept | M_Connected | M_Go | M_Dead

record acceptor =
  m_conn :: nat
  m_pc :: mpc

text \<open>Every statement of \<^verbatim>\<open>main\<close> returns the acceptor's new state, the new world and the
  goroutines it has started.\<close>

text \<open>Lines 45 to 48.\<close>

definition main_listen :: "acceptor \<Rightarrow> world \<Rightarrow> acceptor \<times> world \<times> task list" where
  "main_listen a w =
     (let (err, w1) = net_Listen ''tcp'' '':4221'' w in
      case err of
        Some e \<Rightarrow> (a\<lparr>m_pc := M_Dead\<rparr>, log_Fatal [''Failed binding to port 4221'', Error e] w1, [])
      | None \<Rightarrow> (a\<lparr>m_pc := M_Waiting\<rparr>, w1, []))"

text \<open>Line 51.\<close>

definition main_waiting :: "acceptor \<Rightarrow> world \<Rightarrow> acceptor \<times> world \<times> task list" where
  "main_waiting a w =
     (a\<lparr>m_pc := M_Accept\<rparr>, fmt_Println ''waiting for a client to connect...'' w, [])"

text \<open>Lines 53 to 56. While no client is pending the acceptor stays where it is.\<close>

definition main_accept :: "acceptor \<Rightarrow> world \<Rightarrow> acceptor \<times> world \<times> task list" where
  "main_accept a w =
     (case listener_Accept w of
        None \<Rightarrow> (a, w, [])
      | Some (Inl e, w1) \<Rightarrow>
          (a\<lparr>m_pc := M_Dead\<rparr>, log_Fatal [''Error accepting connection: '', Error e] w1, [])
      | Some (Inr c, w1) \<Rightarrow> (a\<lparr>m_conn := c, m_pc := M_Connected\<rparr>, w1, []))"

text \<open>Line 58.\<close>

definition main_connected :: "acceptor \<Rightarrow> world \<Rightarrow> acceptor \<times> world \<times> task list" where
  "main_connected a w = (a\<lparr>m_pc := M_Go\<rparr>, fmt_Println ''client connected at: '' w, [])"

text \<open>Line 60: \<^verbatim>\<open>go do(conn)\<close> starts a goroutine at the first statement of \<^verbatim>\<open>do\<close> and the
  loop goes back to line 51.\<close>

definition main_go :: "acceptor \<Rightarrow> world \<Rightarrow> acceptor \<times> world \<times> task list" where
  "main_go a w = (a\<lparr>m_pc := M_Waiting\<rparr>, emit (EvGo (m_conn a)) w, [new_task (m_conn a)])"

definition astep :: "acceptor \<Rightarrow> world \<Rightarrow> acceptor \<times> world \<times> task list" where
  "astep a w =
     (case m_pc a of
        M_Listen \<Rightarrow> main_listen a w
      | M_Waiting \<Rightarrow> main_waiting a w
      | M_Accept \<Rightarrow> main_accept a w
      | M_Connected \<Rightarrow> main_connected a w
      | M_Go \<Rightarrow> main_go a w
      | M_Dead \<Rightarrow> (a, w, []))"

subsection \<open>The process\<close>

record proc =
  p_world :: world
  p_main :: acceptor
  p_tasks :: "task list"

datatype tid = Main | Handler nat

text \<open>The scheduler picks who runs the next statement. Once the process has exited nobody
  runs; picking a goroutine that does not exist changes nothing.\<close>

definition step :: "tid \<Rightarrow> proc \<Rightarrow> proc" where
  "step who s =
     (if exited (p_world s) \<noteq> None then s
      else case who of
        Main \<Rightarrow>
          (let (a, w, started) = astep (p_main s) (p_world s)
           in \<lparr>p_world = w, p_main = a, p_tasks = p_tasks s @ started\<rparr>)
      | Handler i \<Rightarrow>
          (if i < length (p_tasks s)
           then (let (t, w) = hstep (p_tasks s ! i) (p_world s)
                 in s\<lparr>p_world := w, p_tasks := (p_tasks s)[i := t]\<rparr>)
           else s))"

fun run :: "tid list \<Rightarrow> proc \<Rightarrow> proc" where
  "run [] s = s"
| "run (who # sched) s = run sched (step who s)"

text \<open>The process at its start, given what the operating system will answer.\<close>

definition boot :: "err option \<Rightarrow> accept_result list \<Rightarrow> proc" where
  "boot lf bl =
     \<lparr>p_world = \<lparr>listen_fail = lf, backlog = bl, conns = [], trace = [], exited = None\<rparr>,
      p_main = \<lparr>m_conn = 0, m_pc = M_Listen\<rparr>,
      p_tasks = []\<rparr>"

subsection \<open>Observations\<close>

text \<open>The calls recorded in a trace: the byte strings passed to \<^verbatim>\<open>Write\<close> on connection
  \<open>r\<close>, the reads with their buffer sizes, the connections returned by \<^verbatim>\<open>Accept\<close> and
  the connections given to \<^verbatim>\<open>go do\<close>.\<close>

primrec written :: "nat \<Rightarrow> event list \<Rightarrow> bytes list" where
  "written r [] = []"
| "written r (e # es) =
     (case e of EvWrite r' b \<Rightarrow> (if r' = r then [b] else []) | _ \<Rightarrow> []) @ written r es"

primrec reads :: "event list \<Rightarrow> (nat \<times> nat) list" where
  "reads [] = []"
| "reads (e # es) = (case e of EvRead r n \<Rightarrow> [(r, n)] | _ \<Rightarrow> []) @ reads es"

primrec accepted :: "event list \<Rightarrow> nat list" where
  "accepted [] = []"
| "accepted (e # es) = (case e of EvAccept (Some r) \<Rightarrow> [r] | _ \<Rightarrow> []) @ accepted es"

primrec started :: "event list \<Rightarrow> nat list" where
  "started [] = []"
| "started (e # es) = (case e of EvGo r \<Rightarrow> [r] | _ \<Rightarrow> []) @ started es"

text \<open>The calls made by one uninterrupted run of \<^verbatim>\<open>do\<close>.\<close>

definition do_events :: "nat \<Rightarrow> world \<Rightarrow> event list" where
  "do_events c w = drop (length (trace w)) (trace (snd (do c w)))"

text \<open>\<open>n\<close> statements of one goroutine with nothing else running in between.\<close>

primrec hsteps :: "nat \<Rightarrow> task \<times> world \<Rightarrow> task \<times> world" where
  "hsteps 0 tw = tw"
| "hsteps (Suc n) tw = hsteps n (hstep (fst tw) (snd tw))"

text \<open>How many bytes the one read takes from the connection, and which bytes of the
  response reach the client.\<close>

definition read_count :: "conn \<Rightarrow> nat" where
  "read_count c = min 1024 (min (arrived (peer c)) (length (unread c)))"

definition delivered :: "conn \<Rightarrow> bytes" where
  "delivered c =
     (case write_fail (peer c) of None \<Rightarrow> response | Some (k, e) \<Rightarrow> take k response)"

text \<open>The same world with another outcome for the write on connection \<open>r\<close>.\<close>

definition with_write_fail :: "nat \<Rightarrow> (nat \<times> err) option \<Rightarrow> world \<Rightarrow> world" where
  "with_write_fail r res w =
     upd_conn r (\<lambda>c. c\<lparr>peer := (peer c)\<lparr>write_fail := res\<rparr>\<rparr>) w"

subsection \<open>Invariants of the process\<close>

text \<open>The calls on connection \<open>r\<close> in a trace, and the calls a goroutine running \<^verbatim>\<open>do\<close> has
  made on its connection when it stands at a given statement.\<close>

fun on_conn :: "nat \<Rightarrow> event \<Rightarrow> bool" where
  "on_conn r (EvRead r' n) = (r' = r)"
| "on_conn r (EvWrite r' b) = (r' = r)"
| "on_conn r (EvClose r') = (r' = r)"
| "on_conn r _ = False"

definition conn_trace :: "nat \<Rightarrow> event list \<Rightarrow> event list" where
  "conn_trace r tr = filter (on_conn r) tr"

fun calls_at :: "nat \<Rightarrow> hpc \<Rightarrow> event list" where
  "calls_at r H_Read = []"
| "calls_at r H_Sleep = [EvRead r 1024]"
| "calls_at r H_Write = [EvRead r 1024]"
| "calls_at r H_Defer = [EvRead r 1024, EvWrite r response]"
| "calls_at r H_Return = [EvRead r 1024, EvWrite r response]"
| "calls_at r H_Done = [EvRead r 1024, EvWrite r response, EvClose r]"
| "calls_at r H_Dead = [EvRead r 1024]"

text \<open>A goroutine and its connection agree; a connection nobody handles is untouched.\<close>

definition task_inv :: "world \<Rightarrow> task \<Rightarrow> bool" where
  "task_inv w t =
     (h_conn t < length (conns w)
    \<and> conn_trace (h_conn t) (trace w) = calls_at (h_conn t) (h_pc t)
    \<and> h_deferred t = (if h_pc t = H_Return then [DeferClose (h_conn t)] else [])
    \<and> closed (conns w ! h_conn t) = (h_pc t = H_Done))"

definition fresh :: "world \<Rightarrow> nat \<Rightarrow> bool" where
  "fresh w r = (conn_trace r (trace w) = [] \<and> (r < length (conns w) \<longrightarrow> \<not> closed (conns w ! r)))"

text \<open>What a handler statement leaves alone in the world.\<close>

definition same_env :: "world \<Rightarrow> world \<Rightarrow> bool" where
  "same_env w w' =
     (backlog w' = backlog w \<and> listen_fail w' = listen_fail w
    \<and> length (conns w') = length (conns w)
    \<and> accepted (trace w') = accepted (trace w) \<and> started (trace w') = started (trace w))"

text \<open>The goroutines are the connections given to \<^verbatim>\<open>go do\<close>, which are the accepted
  connections, except the one the acceptor holds between lines 53 and 60.\<close>

definition dispatch_inv :: "proc \<Rightarrow> bool" where
  "dispatch_inv s =
     (accepted (trace (p_world s)) = [0..<length (conns (p_world s))]
    \<and> map h_conn (p_tasks s) = started (trace (p_world s))
    \<and> started (trace (p_world s)) @
        (if m_pc (p_main s) = M_Connected \<or> m_pc (p_main s) = M_Go then [m_conn (p_main s)] else [])
        = [0..<length (conns (p_world s))])"

definition handling_inv :: "proc \<Rightarrow> bool" where
  "handling_inv s =
     (list_all (task_inv (p_world s)) (p_tasks s)
    \<and> (\<forall>r. r \<notin> set (map h_conn (p_tasks s)) \<longrightarrow> fresh (p_world s) r))"

text \<open>What a statement of another goroutine leaves alone for connection \<open>r\<close>.\<close>

definition same_conn :: "nat \<Rightarrow> world \<Rightarrow> world \<Rightarrow> bool" where
  "same_conn r w w' =
     (conn_trace r (trace w') = conn_trace r (trace w) \<and> conns w' ! r = conns w ! r)"

text \<open>The statement after a given one when nothing fails, and the fact that a stopped
  goroutine means a stopped process.\<close>

fun next_pc :: "hpc \<Rightarrow> hpc" where
  "next_pc H_Read = H_Sleep"
| "next_pc H_Sleep = H_Write"
| "next_pc H_Write = H_Defer"
| "next_pc H_Defer = H_Return"
| "next_pc H_Return = H_Done"
| "next_pc H_Done = H_Done"
| "next_pc H_Dead = H_Dead"

definition dead_inv :: "proc \<Rightarrow> bool" where
  "dead_inv s = (exited (p_world s) = None \<longrightarrow> list_all (\<lambda>t. h_pc t \<noteq> H_Dead) (p_tasks s))"

subsection \<open>Example inputs\<close>

definition ex_client :: client where
  "ex_client = \<lparr>request = ''GET / HTTP/1.1'', arrived = 14, read_fail = None, write_fail = None\<rparr>"

definition ex_world :: "client \<Rightarrow> world" where
  "ex_world cl =
     \<lparr>listen_fail = None, backlog = [], conns = [open_conn cl], trace = [], exited = None\<rparr>"

definition ex_client2 :: client where
  "ex_client2 =
     \<lparr>request = ''POST /upload HTTP/1.1'', arrived = 4, read_fail = None, write_fail = None\<rparr>"

definition ex_big :: client where
  "ex_big =
     \<lparr>request = replicate 2000 (CHR ''a''), arrived = 2000, read_fail = None,
      write_fail = None\<rparr>"

definition ex_eof :: err where
  "ex_eof = Err ''EOF''"

definition ex_pipe :: "(nat \<times> err) option" where
  "ex_pipe = Some (0, Err ''broken pipe'')"

definition ex_bind_fails :: proc where
  "ex_bind_fails = boot (Some (Err ''address already in use'')) []"

definition ex_accept_fails :: proc where
  "ex_accept_fails = run [Main, Main] (boot None [AcceptFailed ex_eof])"

definition ex_read_fails :: proc where
  "ex_read_fails =
     run [Main, Main, Main, Main, Main]
       (boot None [Incoming (ex_client\<lparr>read_fail := Some ex_eof\<rparr>)])"

definition ex_connected :: proc where
  "ex_connected = run [Main, Main, Main] (boot None [Incoming ex_client])"

definition ex_two :: proc where
  "ex_two = run [Main, Main, Main, Main, Main, Main]
              (boot None [Incoming ex_client, Incoming ex_client2])"



definition ex_done :: proc where
  "ex_done =
     run [Main, Main, Main, Main, Main, Handler 0, Handler 0, Handler 0, Handler 0, Handler 0]
       (boot None [Incoming ex_client])"

definition ex_dead :: proc where
  "ex_dead =
     run [Main, Main, Main, Main, Main, Handler 0]
       (boot None [Incoming (ex_client\<lparr>read_fail := Some ex_eof\<rparr>)])"

definition ex_started :: proc where
  "ex_started = run [Main, Main, Main, Main, Main] (boot None [Incoming ex_client])"

definition ex_cut :: proc where
  "ex_cut =
     run [Main, Main, Main, Main, Main, Handler 0, Main, Main, Main, Main, Handler 1]
       (boot None [Incoming ex_client, Incoming (ex_client2\<lparr>read_fail := Some ex_eof\<rparr>)])"



definition ex_pending :: proc where
  "ex_pending =
     run [Main, Main, Main, Main, Main, Main]
       (boot None [Incoming (ex_client\<lparr>read_fail := Some ex_eof\<rparr>), Incoming ex_client2])"

section \<open>Properties of the handler\<close>

lemma read_err_NoneD:
  "read_err r w = None \<Longrightarrow>
   r < length (conns w) \<and> \<not> closed (conns w ! r) \<and> read_fail (peer (conns w ! r)) = None"
  by (simp add: read_err_def split: if_splits)

lemma do_read_ok:
  assumes "read_err (h_conn t) w = None"
  shows "do_read t w =
    (t\<lparr>h_buffer := take (read_count (conns w ! h_conn t)) (unread (conns w ! h_conn t)) @
                    drop (read_count (conns w ! h_conn t)) (make_bytes 1024),
       h_pc := H_Sleep\<rparr>,
     w\<lparr>conns := (conns w)[h_conn t := (conns w ! h_conn t)
                   \<lparr>unread := drop (read_count (conns w ! h_conn t)) (unread (conns w ! h_conn t))\<rparr>],
       trace := trace w @ [EvRead (h_conn t) 1024]\<rparr>)"
  using assms read_err_NoneD[OF assms]
  by (simp add: do_read_def conn_Read_def Let_def emit_def upd_conn_def read_count_def
        make_bytes_def)

lemma do_read_fail:
  assumes "read_err (h_conn t) w = Some e"
  shows "do_read t w =
    (t\<lparr>h_buffer := make_bytes 1024, h_pc := H_Dead\<rparr>,
     w\<lparr>trace := trace w @ [EvRead (h_conn t) 1024,
                            EvLogFatal (''error reading from connection: '' @ Error e)],
       exited := Some 1\<rparr>)"
  using assms
  by (simp add: do_read_def conn_Read_def Let_def emit_def log_Fatal_def os_Exit_def
        make_bytes_def)

lemma do_write_open:
  assumes "r < length (conns w)" "\<not> closed (conns w ! r)" "h_conn t = r"
  shows "do_write t w =
    (t\<lparr>h_pc := H_Defer\<rparr>,
     w\<lparr>conns := (conns w)[r := (conns w ! r)
                   \<lparr>sent := sent (conns w ! r) @ delivered (conns w ! r)\<rparr>],
       trace := trace w @ [EvWrite r response]\<rparr>)"
  using assms
  by (simp add: do_write_def conn_Write_def write_err_def Let_def emit_def upd_conn_def
        delivered_def split: option.split prod.split)

lemma do_return_open:
  assumes "r < length (conns w)" "\<not> closed (conns w ! r)" "h_deferred t = [DeferClose r]"
  shows "do_return t w =
    (t\<lparr>h_deferred := [], h_pc := H_Done\<rparr>,
     w\<lparr>conns := (conns w)[r := (conns w ! r)\<lparr>closed := True\<rparr>],
       trace := trace w @ [EvClose r]\<rparr>)"
  using assms
  by (simp add: do_return_def conn_Close_def Let_def emit_def upd_conn_def)

text \<open>The whole call when the read succeeds, and when it fails.\<close>

lemma do_ok:
  assumes "read_err r w = None"
  shows "do r w =
    (\<lparr>h_conn = r,
      h_buffer = take (read_count (conns w ! r)) (unread (conns w ! r)) @
                 drop (read_count (conns w ! r)) (make_bytes 1024),
      h_deferred = [], h_pc = H_Done\<rparr>,
     w\<lparr>conns := (conns w)[r := (conns w ! r)
                   \<lparr>unread := drop (read_count (conns w ! r)) (unread (conns w ! r)),
                    sent := sent (conns w ! r) @ delivered (conns w ! r),
                    closed := True\<rparr>],
       trace := trace w @
         [EvRead r 1024, EvSleep (second * 8), EvWrite r response, EvClose r]\<rparr>)"
proof -
  from read_err_NoneD[OF assms]
  have v: "r < length (conns w)" and o: "\<not> closed (conns w ! r)" by simp_all
  have r: "read_err (h_conn (new_task r)) w = None" using assms by (simp add: new_task_def)
  show ?thesis
    unfolding do_def do_read_ok[OF r]
    using v o
    by (simp add: do_sleep_def time_Sleep_def emit_def do_defer_def do_write_open
          do_return_open delivered_def new_task_def)
qed

lemma do_fail:
  assumes "read_err r w = Some e"
  shows "do r w =
    (\<lparr>h_conn = r, h_buffer = make_bytes 1024, h_deferred = [], h_pc = H_Dead\<rparr>,
     w\<lparr>trace := trace w @ [EvRead r 1024,
                            EvLogFatal (''error reading from connection: '' @ Error e)],
       exited := Some 1\<rparr>)"
proof -
  have r: "read_err (h_conn (new_task r)) w = Some e" using assms by (simp add: new_task_def)
  show ?thesis unfolding do_def do_read_fail[OF r] by (simp add: new_task_def)
qed

lemma do_events_ok:
  "read_err r w = None \<Longrightarrow>
   do_events r w = [EvRead r 1024, EvSleep (second * 8), EvWrite r response, EvClose r]"
  by (simp add: do_events_def do_ok)

lemma do_events_fail:
  "read_err r w = Some e \<Longrightarrow>
   do_events r w = [EvRead r 1024, EvLogFatal (''error reading from connection: '' @ Error e)]"
  by (simp add: do_events_def do_fail)

lemma ex_read_ok: "read_fail cl = None \<Longrightarrow> read_err 0 (ex_world cl) = None"
  by (simp add: read_err_def ex_world_def open_conn_def)

lemma ex_read_fail: "read_fail cl = Some e \<Longrightarrow> read_err 0 (ex_world cl) = Some e"
  by (simp add: read_err_def ex_world_def open_conn_def)

lemma hstep_pc:
  "h_pc (fst (hstep t w)) =
     (case h_pc t of
        H_Read \<Rightarrow> (if read_err (h_conn t) w = None then H_Sleep else H_Dead)
      | H_Sleep \<Rightarrow> H_Write | H_Write \<Rightarrow> H_Defer | H_Defer \<Rightarrow> H_Return
      | H_Return \<Rightarrow> H_Done | H_Done \<Rightarrow> H_Done | H_Dead \<Rightarrow> H_Dead)"
  by (cases "read_err (h_conn t) w")
     (simp_all add: hstep_def do_read_ok do_read_fail do_sleep_def do_write_def do_defer_def
        do_return_def split: hpc.split prod.split)

lemma hsteps_numeral:
  "hsteps (numeral k) tw = hsteps (pred_numeral k) (hstep (fst tw) (snd tw))"
  by (simp add: numeral_eq_Suc)

lemma hsteps_4_ok:
  assumes "read_err r w = None"
  shows "hsteps 4 (new_task r, w) =
    (\<lparr>h_conn = r,
      h_buffer = take (read_count (conns w ! r)) (unread (conns w ! r)) @
                 drop (read_count (conns w ! r)) (make_bytes 1024),
      h_deferred = [DeferClose r], h_pc = H_Return\<rparr>,
     w\<lparr>conns := (conns w)[r := (conns w ! r)
                   \<lparr>unread := drop (read_count (conns w ! r)) (unread (conns w ! r)),
                    sent := sent (conns w ! r) @ delivered (conns w ! r)\<rparr>],
       trace := trace w @ [EvRead r 1024, EvSleep (second * 8), EvWrite r response]\<rparr>)"
proof -
  from read_err_NoneD[OF assms]
  have v: "r < length (conns w)" and o: "\<not> closed (conns w ! r)" by simp_all
  show ?thesis
    using assms v o
    by (simp add: hsteps_numeral do_read_ok hstep_def do_sleep_def time_Sleep_def
          emit_def do_defer_def do_write_open delivered_def new_task_def)
qed

lemma hsteps_add: "hsteps (m + n) tw = hsteps n (hsteps m tw)"
  by (induction m arbitrary: tw) simp_all

lemma hsteps_5_do: "hsteps 5 (new_task r, w) = do r w"
proof (cases "read_err r w")
  case None
  from read_err_NoneD[OF None]
  have v: "r < length (conns w)" and o: "\<not> closed (conns w ! r)" by simp_all
  have "hsteps 5 (new_task r, w) = hsteps 1 (hsteps 4 (new_task r, w))"
    using hsteps_add[of 4 1] by simp
  also have "\<dots> = do r w"
    unfolding hsteps_4_ok[OF None] using v o
    by (simp add: hstep_def do_return_open do_ok[OF None])
  finally show ?thesis .
next
  case (Some e)
  then show ?thesis
    by (simp add: hsteps_numeral do_read_fail hstep_def do_fail new_task_def)
qed

lemma hsteps_dead: "h_pc t = H_Dead \<Longrightarrow> hsteps n (t, w) = (t, w)"
  by (induction n) (simp_all add: hstep_def)

lemma hsteps_fail:
  assumes "read_err r w = Some e"
  shows "hsteps (Suc n) (new_task r, w) = do r w"
proof -
  have 1: "hstep (new_task r) w = do r w"
    using assms by (simp add: hstep_def do_read_fail do_fail new_task_def)
  show ?thesis by (simp add: 1 do_fail[OF assms] hsteps_dead)
qed

lemma read_err_with_write_fail [simp]: "read_err r (with_write_fail r res w) = read_err r w"
  by (simp add: read_err_def with_write_fail_def upd_conn_def)

lemma write_err_with_write_fail:
  "read_err r w = None \<Longrightarrow> write_err r (with_write_fail r res w) = res"
  by (simp add: read_err_def write_err_def with_write_fail_def upd_conn_def split: if_splits)

lemma trace_with_write_fail [simp]: "trace (with_write_fail r res w) = trace w"
  by (simp add: with_write_fail_def upd_conn_def)

lemma exited_with_write_fail [simp]: "exited (with_write_fail r res w) = exited w"
  by (simp add: with_write_fail_def upd_conn_def)

lemma hsteps_pcs_ok:
  assumes "read_err r w = None"
  shows "map (\<lambda>n. h_pc (fst (hsteps n (new_task r, w)))) [0, 1, 2, 3, 4, 5] =
           [H_Read, H_Sleep, H_Write, H_Defer, H_Return, H_Done]"
proof -
  from read_err_NoneD[OF assms]
  have v: "r < length (conns w)" and o: "\<not> closed (conns w ! r)" by simp_all
  show ?thesis
    using assms v o
    by (simp add: hsteps_numeral do_read_ok hstep_def do_sleep_def time_Sleep_def
          emit_def do_defer_def do_write_open do_return_def new_task_def)
qed

section \<open>Properties of the process\<close>

lemma conn_trace_append [simp]: "conn_trace r (xs @ ys) = conn_trace r xs @ conn_trace r ys"
  by (simp add: conn_trace_def)

lemma conn_trace_Nil [simp]: "conn_trace r [] = []"
  by (simp add: conn_trace_def)

lemma conn_trace_Cons [simp]:
  "conn_trace r (e # es) = (if on_conn r e then e # conn_trace r es else conn_trace r es)"
  by (simp add: conn_trace_def)

lemma same_conn_refl [simp]: "same_conn r w w"
  by (simp add: same_conn_def)

lemma same_conn_trans: "same_conn r w w' \<Longrightarrow> same_conn r w' w'' \<Longrightarrow> same_conn r w w''"
  by (simp add: same_conn_def)

lemma conn_Close_same: "r \<noteq> c \<Longrightarrow> same_conn r w (snd (conn_Close c w))"
  by (simp add: same_conn_def conn_Close_def Let_def emit_def upd_conn_def)

lemma run_deferred_same:
  "set ds \<subseteq> {DeferClose c} \<Longrightarrow> r \<noteq> c \<Longrightarrow> same_conn r w (run_deferred ds w)"
proof (induction ds arbitrary: w)
  case Nil
  show ?case by simp
next
  case (Cons d ds)
  then have d: "d = DeferClose c" and s: "set ds \<subseteq> {DeferClose c}" by simp_all
  show ?case
    unfolding d using same_conn_trans[OF conn_Close_same[OF Cons.prems(2)] Cons.IH[OF s Cons.prems(2)]]
    by simp
qed

lemma hstep_same:
  assumes "set (h_deferred t) \<subseteq> {DeferClose (h_conn t)}" "r \<noteq> h_conn t"
  shows "same_conn r w (snd (hstep t w))"
proof (cases "h_pc t")
  case H_Read
  then show ?thesis using assms
    by (simp add: same_conn_def hstep_def do_read_def conn_Read_def log_Fatal_def os_Exit_def
          emit_def upd_conn_def Let_def split: option.split)
next
  case H_Write
  then show ?thesis using assms
    by (simp add: same_conn_def hstep_def do_write_def conn_Write_def emit_def upd_conn_def
          Let_def split: option.split prod.split)
next
  case H_Return
  then show ?thesis using assms
    by (simp add: hstep_def do_return_def run_deferred_same)
qed (simp_all add: same_conn_def hstep_def do_sleep_def time_Sleep_def emit_def do_defer_def)

lemma task_inv_deferred: "task_inv w t \<Longrightarrow> set (h_deferred t) \<subseteq> {DeferClose (h_conn t)}"
  by (auto simp: task_inv_def split: if_splits)

text \<open>A goroutine's own statement takes it to the next line of the table.\<close>

lemma task_inv_own:
  assumes "task_inv w t"
  shows "task_inv (snd (hstep t w)) (fst (hstep t w))"
proof (cases "h_pc t")
  case H_Read
  show ?thesis
  proof (cases "read_err (h_conn t) w")
    case None
    then show ?thesis using assms H_Read
      by (simp add: hstep_def do_read_ok task_inv_def)
  next
    case (Some e)
    then show ?thesis using assms H_Read
      by (simp add: hstep_def do_read_fail task_inv_def)
  qed
next
  case H_Sleep
  then show ?thesis using assms
    by (simp add: hstep_def do_sleep_def time_Sleep_def emit_def task_inv_def)
next
  case H_Write
  then have "do_write t w =
    (t\<lparr>h_pc := H_Defer\<rparr>,
     w\<lparr>conns := (conns w)[h_conn t := (conns w ! h_conn t)
                   \<lparr>sent := sent (conns w ! h_conn t) @ delivered (conns w ! h_conn t)\<rparr>],
       trace := trace w @ [EvWrite (h_conn t) response]\<rparr>)"
    using assms by (intro do_write_open) (simp_all add: task_inv_def)
  then show ?thesis using assms H_Write
    by (simp add: hstep_def task_inv_def)
next
  case H_Defer
  then show ?thesis using assms
    by (simp add: hstep_def do_defer_def task_inv_def)
next
  case H_Return
  then have "do_return t w =
    (t\<lparr>h_deferred := [], h_pc := H_Done\<rparr>,
     w\<lparr>conns := (conns w)[h_conn t := (conns w ! h_conn t)\<lparr>closed := True\<rparr>],
       trace := trace w @ [EvClose (h_conn t)]\<rparr>)"
    using assms by (intro do_return_open) (simp_all add: task_inv_def)
  then show ?thesis using assms H_Return
    by (simp add: hstep_def task_inv_def)
next
  case H_Done
  then show ?thesis using assms by (simp add: hstep_def)
next
  case H_Dead
  then show ?thesis using assms by (simp add: hstep_def)
qed

lemma step_exited: "exited (p_world s) \<noteq> None \<Longrightarrow> step who s = s"
  by (simp add: step_def)

lemma run_exited: "exited (p_world s) \<noteq> None \<Longrightarrow> run sched s = s"
  by (induction sched) (simp_all add: step_exited)

lemma accepted_append [simp]: "accepted (xs @ ys) = accepted xs @ accepted ys"
  by (induction xs) simp_all

lemma started_append [simp]: "started (xs @ ys) = started xs @ started ys"
  by (induction xs) simp_all

lemma same_env_refl [simp]: "same_env w w"
  by (simp add: same_env_def)

lemma same_env_trans: "same_env w w' \<Longrightarrow> same_env w' w'' \<Longrightarrow> same_env w w''"
  by (simp add: same_env_def)

lemma conn_Close_env: "same_env w (snd (conn_Close r w))"
  by (simp add: same_env_def conn_Close_def Let_def emit_def upd_conn_def)

lemma run_deferred_env: "same_env w (run_deferred ds w)"
proof (induction ds arbitrary: w)
  case Nil
  show ?case by simp
next
  case (Cons d ds)
  obtain r where d: "d = DeferClose r" by (cases d)
  show ?case unfolding d using same_env_trans[OF conn_Close_env Cons.IH] by simp
qed

lemma conn_Read_env: "same_env w (snd (conn_Read r b w))"
  by (simp add: same_env_def conn_Read_def Let_def emit_def upd_conn_def split: option.split)

lemma conn_Write_env: "same_env w (snd (conn_Write r b w))"
  by (simp add: same_env_def conn_Write_def Let_def emit_def upd_conn_def split: option.split prod.split)

lemma log_Fatal_env: "same_env w w' \<Longrightarrow> same_env w (log_Fatal vs w')"
  by (simp add: same_env_def log_Fatal_def os_Exit_def emit_def)

lemma do_read_env: "same_env w (snd (do_read t w))"
  using conn_Read_env[of w "h_conn t" "make_bytes 1024"]
  by (auto simp: do_read_def Let_def log_Fatal_env split: prod.split option.split)

lemma do_write_env: "same_env w (snd (do_write t w))"
  using conn_Write_env[of w "h_conn t" response]
  by (auto simp: do_write_def split: prod.split)

lemma hstep_env: "same_env w (snd (hstep t w))"
  by (simp add: hstep_def do_read_env do_write_env do_sleep_def time_Sleep_def do_defer_def
        do_return_def run_deferred_env split: hpc.split)
     (simp add: same_env_def emit_def)

lemma hstep_conn: "h_conn (fst (hstep t w)) = h_conn t"
  by (simp add: hstep_def do_read_def do_write_def do_sleep_def do_defer_def do_return_def Let_def
        split: hpc.split prod.split option.split)


subsection \<open>Dispatch\<close>

lemma dispatch_inv_boot: "dispatch_inv (boot lf bl)"
  by (simp add: dispatch_inv_def boot_def)

lemma dispatch_inv_handler:
  assumes "dispatch_inv s"
  shows "dispatch_inv (step (Handler i) s)"
proof (cases "exited (p_world s) = None \<and> i < length (p_tasks s)")
  case False
  then show ?thesis using assms by (auto simp: step_def)
next
  case True
  obtain t w where h: "hstep (p_tasks s ! i) (p_world s) = (t, w)" by fastforce
  have e: "same_env (p_world s) w" using hstep_env[of "p_world s" "p_tasks s ! i"] h by simp
  have c: "h_conn t = h_conn (p_tasks s ! i)" using hstep_conn[of "p_tasks s ! i" "p_world s"] h by simp
  have st: "step (Handler i) s = s\<lparr>p_world := w, p_tasks := (p_tasks s)[i := t]\<rparr>"
    using True h by (simp add: step_def)
  have m: "map h_conn ((p_tasks s)[i := t]) = map h_conn (p_tasks s)"
    using c True by (simp add: map_update list_update_same_conv)
  show ?thesis
    using assms e m unfolding st by (auto simp: dispatch_inv_def same_env_def split: if_splits)
qed

lemma dispatch_inv_main:
  assumes "dispatch_inv s"
  shows "dispatch_inv (step Main s)"
proof (cases "exited (p_world s) = None")
  case False
  then show ?thesis using assms by (simp add: step_def)
next
  case True
  show ?thesis
  proof (cases "m_pc (p_main s)")
    case M_Listen
    then show ?thesis using assms True
      by (simp add: dispatch_inv_def step_def astep_def main_listen_def net_Listen_def log_Fatal_def
            os_Exit_def emit_def split: option.split)
  next
    case M_Waiting
    then show ?thesis using assms True
      by (simp add: dispatch_inv_def step_def astep_def main_waiting_def fmt_Println_def emit_def)
  next
    case M_Accept
    then show ?thesis using assms True
      by (simp add: dispatch_inv_def step_def astep_def main_accept_def listener_Accept_def
            log_Fatal_def os_Exit_def emit_def split: list.split accept_result.split)
  next
    case M_Connected
    then show ?thesis using assms True
      by (simp add: dispatch_inv_def step_def astep_def main_connected_def fmt_Println_def emit_def)
  next
    case M_Go
    then show ?thesis using assms True
      by (simp add: dispatch_inv_def step_def astep_def main_go_def emit_def new_task_def)
  next
    case M_Dead
    then show ?thesis using assms True by (simp add: dispatch_inv_def step_def astep_def)
  qed
qed

lemma dispatch_inv_distinct: "dispatch_inv s \<Longrightarrow> distinct (map h_conn (p_tasks s))"
proof -
  assume a: "dispatch_inv s"
  have "distinct (started (trace (p_world s)) @
        (if m_pc (p_main s) = M_Connected \<or> m_pc (p_main s) = M_Go then [m_conn (p_main s)] else []))"
    using a by (simp add: dispatch_inv_def)
  then show ?thesis using a by (simp add: dispatch_inv_def)
qed

lemma dispatch_inv_pending:
  assumes "dispatch_inv s" "m_pc (p_main s) = M_Go"
  shows "m_conn (p_main s) < length (conns (p_world s))
       \<and> m_conn (p_main s) \<notin> set (map h_conn (p_tasks s))"
proof -
  have e: "started (trace (p_world s)) @ [m_conn (p_main s)] = [0..<length (conns (p_world s))]"
    and m: "map h_conn (p_tasks s) = started (trace (p_world s))"
    using assms by (simp_all add: dispatch_inv_def)
  have "m_conn (p_main s) \<in> set (started (trace (p_world s)) @ [m_conn (p_main s)])" by simp
  then have 1: "m_conn (p_main s) < length (conns (p_world s))" unfolding e by simp
  have "distinct (started (trace (p_world s)) @ [m_conn (p_main s)])" unfolding e by simp
  then have 2: "m_conn (p_main s) \<notin> set (map h_conn (p_tasks s))" unfolding m by simp
  show ?thesis using 1 2 by simp
qed

subsection \<open>Handling\<close>

lemma task_inv_cong:
  "task_inv w t \<Longrightarrow> same_conn (h_conn t) w w' \<Longrightarrow> length (conns w') = length (conns w) \<Longrightarrow>
   task_inv w' t"
  by (simp add: task_inv_def same_conn_def)

lemma fresh_cong:
  "fresh w r \<Longrightarrow> same_conn r w w' \<Longrightarrow> length (conns w') = length (conns w) \<Longrightarrow> fresh w' r"
  by (simp add: fresh_def same_conn_def)

lemma astep_task_inv: "task_inv w t \<Longrightarrow> task_inv (fst (snd (astep a w))) t"
  by (cases "m_pc a")
     (simp_all add: task_inv_def astep_def main_listen_def net_Listen_def log_Fatal_def os_Exit_def
        emit_def main_waiting_def fmt_Println_def main_accept_def listener_Accept_def
        main_connected_def main_go_def nth_append
        split: option.split list.split accept_result.split)

lemma astep_fresh: "fresh w r \<Longrightarrow> fresh (fst (snd (astep a w))) r"
  by (cases "m_pc a")
     (auto simp: fresh_def astep_def main_listen_def net_Listen_def log_Fatal_def os_Exit_def
        emit_def main_waiting_def fmt_Println_def main_accept_def listener_Accept_def
        main_connected_def main_go_def nth_append open_conn_def
        split: option.split list.split accept_result.split)

lemma astep_started:
  "snd (snd (astep a w)) = (if m_pc a = M_Go then [new_task (m_conn a)] else [])"
  by (cases "m_pc a")
     (simp_all add: astep_def main_listen_def net_Listen_def log_Fatal_def
        main_waiting_def main_accept_def listener_Accept_def
        main_connected_def main_go_def
        split: option.split list.split accept_result.split prod.split)

lemma astep_length: "length (conns w) \<le> length (conns (fst (snd (astep a w))))"
  by (cases "m_pc a")
     (simp_all add: astep_def main_listen_def net_Listen_def log_Fatal_def os_Exit_def
        emit_def main_waiting_def fmt_Println_def main_accept_def listener_Accept_def
        main_connected_def main_go_def
        split: option.split list.split accept_result.split)

lemma handling_inv_boot: "handling_inv (boot lf bl)"
  by (simp add: handling_inv_def boot_def fresh_def)

lemma handling_inv_main:
  assumes "handling_inv s" "dispatch_inv s"
  shows "handling_inv (step Main s)"
proof (cases "exited (p_world s) = None")
  case False
  then show ?thesis using assms by (simp add: step_def)
next
  case True
  let ?w = "fst (snd (astep (p_main s) (p_world s)))"
  have st: "step Main s =
      \<lparr>p_world = ?w, p_main = fst (astep (p_main s) (p_world s)),
       p_tasks = p_tasks s @ (if m_pc (p_main s) = M_Go then [new_task (m_conn (p_main s))] else [])\<rparr>"
    using True astep_started[of "p_main s" "p_world s"] by (simp add: step_def case_prod_beta)
  have old: "list_all (task_inv ?w) (p_tasks s)"
    using assms(1) by (simp add: handling_inv_def list_all_iff astep_task_inv)
  have fr: "fresh ?w r" if "r \<notin> set (map h_conn (p_tasks s))" for r
    using assms(1) that by (simp add: handling_inv_def astep_fresh)
  show ?thesis
  proof (cases "m_pc (p_main s) = M_Go")
    case False
    then show ?thesis unfolding st using old fr by (simp add: handling_inv_def)
  next
    case True
    from dispatch_inv_pending[OF assms(2) True]
    have v: "m_conn (p_main s) < length (conns (p_world s))"
      and n: "m_conn (p_main s) \<notin> set (map h_conn (p_tasks s))" by simp_all
    have f: "fresh ?w (m_conn (p_main s))" using fr[OF n] .
    have v': "m_conn (p_main s) < length (conns ?w)"
      using v astep_length[of "p_world s" "p_main s"] by simp
    have new: "task_inv ?w (new_task (m_conn (p_main s)))"
      using f v' by (simp add: task_inv_def fresh_def new_task_def)
    show ?thesis unfolding st using True old fr new
      by (simp add: handling_inv_def new_task_def)
  qed
qed

lemma handling_inv_handler:
  assumes "handling_inv s" "dispatch_inv s"
  shows "handling_inv (step (Handler i) s)"
proof (cases "exited (p_world s) = None \<and> i < length (p_tasks s)")
  case False
  then show ?thesis using assms by (auto simp: step_def)
next
  case True
  let ?t = "p_tasks s ! i"
  let ?t' = "fst (hstep ?t (p_world s))"
  let ?w' = "snd (hstep ?t (p_world s))"
  have st: "step (Handler i) s = s\<lparr>p_world := ?w', p_tasks := (p_tasks s)[i := ?t']\<rparr>"
    using True by (simp add: step_def case_prod_beta)
  have all: "\<And>j. j < length (p_tasks s) \<Longrightarrow> task_inv (p_world s) (p_tasks s ! j)"
    using assms(1) by (simp add: handling_inv_def list_all_length)
  have ti: "task_inv (p_world s) ?t" using all True by simp
  have len: "length (conns ?w') = length (conns (p_world s))"
    using hstep_env[of "p_world s" ?t] by (simp add: same_env_def)
  have own: "task_inv ?w' ?t'" using task_inv_own[OF ti] .
  have d: "distinct (map h_conn (p_tasks s))" using dispatch_inv_distinct[OF assms(2)] .
  have others: "task_inv ?w' (p_tasks s ! j)" if "j < length (p_tasks s)" "j \<noteq> i" for j
  proof -
    have "h_conn (p_tasks s ! j) \<noteq> h_conn ?t"
      using d that True by (simp add: distinct_conv_nth)
    then have "same_conn (h_conn (p_tasks s ! j)) (p_world s) ?w'"
      using hstep_same[OF task_inv_deferred[OF ti]] by simp
    then show ?thesis using task_inv_cong[OF all[OF that(1)] _ len] by simp
  qed
  have l: "list_all (task_inv ?w') ((p_tasks s)[i := ?t'])"
    using own others True by (auto simp: list_all_length nth_list_update)
  have m: "map h_conn ((p_tasks s)[i := ?t']) = map h_conn (p_tasks s)"
    using True hstep_conn[of ?t "p_world s"] by (simp add: map_update list_update_same_conv)
  have fr: "fresh ?w' r" if "r \<notin> set (map h_conn (p_tasks s))" for r
  proof -
    have "h_conn ?t \<in> set (map h_conn (p_tasks s))" using True by simp
    then have "r \<noteq> h_conn ?t" using that by blast
    then have "same_conn r (p_world s) ?w'" using hstep_same[OF task_inv_deferred[OF ti]] by simp
    moreover have "fresh (p_world s) r" using assms(1) that by (simp add: handling_inv_def)
    ultimately show ?thesis using fresh_cong len by blast
  qed
  show ?thesis unfolding st handling_inv_def using l m fr by simp
qed

lemma invs_step:
  "dispatch_inv s \<and> handling_inv s \<Longrightarrow> dispatch_inv (step who s) \<and> handling_inv (step who s)"
  by (cases who)
     (simp_all add: dispatch_inv_main dispatch_inv_handler handling_inv_main handling_inv_handler)

lemma invs_run:
  "dispatch_inv s \<and> handling_inv s \<Longrightarrow> dispatch_inv (run sched s) \<and> handling_inv (run sched s)"
proof (induction sched arbitrary: s)
  case Nil
  then show ?case by simp
next
  case (Cons who sched)
  from invs_step[OF Cons.prems] Cons.IH show ?case by simp
qed

lemma invs_reachable:
  "dispatch_inv (run sched (boot lf bl)) \<and> handling_inv (run sched (boot lf bl))"
  by (rule invs_run) (simp add: dispatch_inv_boot handling_inv_boot)


subsection \<open>Single steps\<close>

lemma step_Main_listen_fail:
  assumes "exited (p_world s) = None" "m_pc (p_main s) = M_Listen" "listen_fail (p_world s) = Some e"
  shows "step Main s =
    \<lparr>p_world = (p_world s)\<lparr>trace := trace (p_world s) @
                  [EvListen ''tcp'' '':4221'', EvLogFatal (''Failed binding to port 4221'' @ Error e)],
                exited := Some 1\<rparr>,
     p_main = (p_main s)\<lparr>m_pc := M_Dead\<rparr>, p_tasks = p_tasks s\<rparr>"
  using assms
  by (simp add: step_def astep_def main_listen_def net_Listen_def log_Fatal_def os_Exit_def emit_def)

lemma step_Main_accept_fail:
  assumes "exited (p_world s) = None" "m_pc (p_main s) = M_Accept"
    "backlog (p_world s) = AcceptFailed e # rest"
  shows "step Main s =
    \<lparr>p_world = (p_world s)\<lparr>backlog := rest, trace := trace (p_world s) @
                  [EvAccept None, EvLogFatal (''Error accepting connection: '' @ Error e)],
                exited := Some 1\<rparr>,
     p_main = (p_main s)\<lparr>m_pc := M_Dead\<rparr>, p_tasks = p_tasks s\<rparr>"
  using assms
  by (simp add: step_def astep_def main_accept_def listener_Accept_def log_Fatal_def os_Exit_def emit_def)

lemma step_Handler_read_fail:
  assumes "exited (p_world s) = None" "i < length (p_tasks s)" "h_pc (p_tasks s ! i) = H_Read"
    "read_err (h_conn (p_tasks s ! i)) (p_world s) = Some e"
  shows "step (Handler i) s =
    s\<lparr>p_world := (p_world s)\<lparr>trace := trace (p_world s) @
                  [EvRead (h_conn (p_tasks s ! i)) 1024,
                   EvLogFatal (''error reading from connection: '' @ Error e)],
                exited := Some 1\<rparr>,
      p_tasks := (p_tasks s)[i := (p_tasks s ! i)\<lparr>h_buffer := make_bytes 1024, h_pc := H_Dead\<rparr>]\<rparr>"
  using assms
  by (simp add: step_def hstep_def do_read_fail)


lemma handlers_env:
  "Main \<notin> set hs \<Longrightarrow> p_main (run hs s) = p_main s \<and> same_env (p_world s) (p_world (run hs s))"
proof (induction hs arbitrary: s)
  case Nil
  show ?case by simp
next
  case (Cons who hs)
  then obtain i where w: "who = Handler i" by (cases who) simp_all
  have 1: "p_main (step who s) = p_main s \<and> same_env (p_world s) (p_world (step who s))"
    unfolding w using hstep_env[of "p_world s" "p_tasks s ! i"]
    by (simp add: step_def split: prod.split) (metis snd_conv)
  from Cons have 2: "p_main (run hs (step who s)) = p_main (step who s)
      \<and> same_env (p_world (step who s)) (p_world (run hs (step who s)))" by simp
  show ?case using 1 2 same_env_trans by auto
qed

lemma astep_env:
  assumes "same_env w w'"
  shows "fst (astep a w') = fst (astep a w)
       \<and> snd (snd (astep a w')) = snd (snd (astep a w))
       \<and> backlog (fst (snd (astep a w'))) = backlog (fst (snd (astep a w)))
       \<and> (exited w' = exited w \<longrightarrow> exited (fst (snd (astep a w'))) = exited (fst (snd (astep a w))))"
  using assms
  by (cases "m_pc a")
     (simp_all add: same_env_def astep_def main_listen_def net_Listen_def log_Fatal_def os_Exit_def
        emit_def main_waiting_def fmt_Println_def main_accept_def listener_Accept_def
        main_connected_def main_go_def split: option.split list.split accept_result.split)


lemma main_progress:
  assumes "exited (p_world s) = None" "m_pc (p_main s) \<noteq> M_Dead"
    "m_pc (p_main s) = M_Accept \<longrightarrow> backlog (p_world s) \<noteq> []"
  shows "step Main s \<noteq> s"
proof -
  have "trace (p_world (step Main s)) \<noteq> trace (p_world s)"
    using assms
    by (cases "m_pc (p_main s)")
       (simp_all add: step_def astep_def main_listen_def net_Listen_def log_Fatal_def os_Exit_def
          emit_def main_waiting_def fmt_Println_def main_accept_def listener_Accept_def
          main_connected_def main_go_def split: option.split list.split accept_result.split)
  then show ?thesis by auto
qed

subsection \<open>The example runs\<close>

lemmas exec_defs = step_def astep_def hstep_def main_listen_def main_waiting_def main_accept_def
  main_connected_def main_go_def net_Listen_def listener_Accept_def fmt_Println_def emit_def
  log_Fatal_def os_Exit_def new_task_def open_conn_def boot_def


lemma ex_bind_fails_eq:
  "ex_bind_fails =
     \<lparr>p_world = \<lparr>listen_fail = Some (Err ''address already in use''), backlog = [], conns = [],
                  trace = [], exited = None\<rparr>,
      p_main = \<lparr>m_conn = 0, m_pc = M_Listen\<rparr>, p_tasks = []\<rparr>"
  by (simp add: ex_bind_fails_def boot_def)

lemma ex_accept_fails_eq:
  "ex_accept_fails =
     \<lparr>p_world = \<lparr>listen_fail = None, backlog = [AcceptFailed ex_eof], conns = [],
                  trace = [EvListen ''tcp'' '':4221'', EvPrintln ''waiting for a client to connect...''],
                  exited = None\<rparr>,
      p_main = \<lparr>m_conn = 0, m_pc = M_Accept\<rparr>, p_tasks = []\<rparr>"
  by (simp add: ex_accept_fails_def exec_defs)

lemma ex_read_fails_eq:
  "ex_read_fails =
     \<lparr>p_world = \<lparr>listen_fail = None, backlog = [],
                  conns = [open_conn (ex_client\<lparr>read_fail := Some ex_eof\<rparr>)],
                  trace = [EvListen ''tcp'' '':4221'', EvPrintln ''waiting for a client to connect...'',
                           EvAccept (Some 0), EvPrintln ''client connected at: '', EvGo 0],
                  exited = None\<rparr>,
      p_main = \<lparr>m_conn = 0, m_pc = M_Waiting\<rparr>, p_tasks = [new_task 0]\<rparr>"
  by (simp add: ex_read_fails_def exec_defs)

lemma ex_two_eq:
  "ex_two =
     \<lparr>p_world = \<lparr>listen_fail = None, backlog = [Incoming ex_client2],
                  conns = [open_conn ex_client],
                  trace = [EvListen ''tcp'' '':4221'', EvPrintln ''waiting for a client to connect...'',
                           EvAccept (Some 0), EvPrintln ''client connected at: '', EvGo 0,
                           EvPrintln ''waiting for a client to connect...''],
                  exited = None\<rparr>,
      p_main = \<lparr>m_conn = 0, m_pc = M_Accept\<rparr>, p_tasks = [new_task 0]\<rparr>"
  by (simp add: ex_two_def exec_defs)

lemma ex_connected_eq:
  "ex_connected =
     \<lparr>p_world = \<lparr>listen_fail = None, backlog = [], conns = [open_conn ex_client],
                  trace = [EvListen ''tcp'' '':4221'', EvPrintln ''waiting for a client to connect...'',
                           EvAccept (Some 0)],
                  exited = None\<rparr>,
      p_main = \<lparr>m_conn = 0, m_pc = M_Connected\<rparr>, p_tasks = []\<rparr>"
  by (simp add: ex_connected_def exec_defs)

lemma ex_two_sleeping:
  "exited (p_world (run [Handler 0, Handler 0] ex_two)) = None
   \<and> map h_pc (p_tasks (run [Handler 0, Handler 0] ex_two)) = [H_Write]"
  by (simp add: ex_two_eq step_def hstep_def new_task_def do_read_ok read_err_def open_conn_def
        ex_client_def do_sleep_def time_Sleep_def emit_def)


lemma reach_task_inv:
  assumes "s = run sched (boot lf bl)" "i < length (p_tasks s)"
  shows "task_inv (p_world s) (p_tasks s ! i)"
  using invs_reachable[of sched lf bl] assms
  by (simp add: handling_inv_def list_all_length)

lemma written_conn_trace: "written r (conn_trace r tr) = written r tr"
proof (induction tr)
  case Nil
  show ?case by simp
next
  case (Cons e tr)
  then show ?case by (cases e) simp_all
qed

lemma reads_conn_trace: "reads (conn_trace r tr) = filter (\<lambda>p. fst p = r) (reads tr)"
proof (induction tr)
  case Nil
  show ?case by simp
next
  case (Cons e tr)
  then show ?case by (cases e) simp_all
qed

lemma close_conn_trace: "EvClose r \<in> set (conn_trace r tr) \<longleftrightarrow> EvClose r \<in> set tr"
  by (simp add: conn_trace_def)

lemma ex_done_facts:
  "length (p_tasks ex_done) = 1
   \<and> h_conn (p_tasks ex_done ! 0) = 0
   \<and> h_pc (p_tasks ex_done ! 0) = H_Done
   \<and> exited (p_world ex_done) = None
   \<and> trace (p_world ex_done) =
       [EvListen ''tcp'' '':4221'', EvPrintln ''waiting for a client to connect...'',
        EvAccept (Some 0), EvPrintln ''client connected at: '', EvGo 0,
        EvRead 0 1024, EvSleep 8000000000, EvWrite 0 response, EvClose 0]"
  by (simp add: ex_done_def exec_defs do_read_ok read_err_def ex_client_def do_sleep_def
        time_Sleep_def second_def do_write_open do_defer_def do_return_open)

lemma ex_dead_facts:
  "length (p_tasks ex_dead) = 1
   \<and> h_conn (p_tasks ex_dead ! 0) = 0
   \<and> h_pc (p_tasks ex_dead ! 0) = H_Dead
   \<and> exited (p_world ex_dead) = Some 1"
  by (simp add: ex_dead_def exec_defs do_read_fail read_err_def ex_client_def)

subsection \<open>Progress while the process runs\<close>

lemma run_append: "run (xs @ ys) s = run ys (run xs s)"
  by (induction xs arbitrary: s) simp_all

lemma step_running:
  assumes "exited (p_world (step who s)) = None"
  shows "exited (p_world s) = None"
  using assms by (cases "exited (p_world s)") (simp_all add: step_def)

lemma run_running:
  assumes "exited (p_world (run sched s)) = None"
  shows "exited (p_world s) = None"
  using assms run_exited[of s sched] by (cases "exited (p_world s)") simp_all

lemma step_length: "length (p_tasks s) \<le> length (p_tasks (step who s))"
  by (cases who) (simp_all add: step_def case_prod_beta)

lemma hstep_exit:
  assumes "exited w = None" "exited (snd (hstep t w)) = None" "h_pc t \<noteq> H_Dead"
  shows "h_pc (fst (hstep t w)) = next_pc (h_pc t)"
proof (cases "read_err (h_conn t) w")
  case None
  then show ?thesis using assms by (cases "h_pc t") (simp_all add: hstep_pc)
next
  case (Some e)
  then show ?thesis using assms
    by (cases "h_pc t") (simp_all add: hstep_pc, simp add: hstep_def do_read_fail)
qed

text \<open>One step of the process that leaves it running moves the goroutine that took it
  to its next statement and leaves the others where they are.\<close>

lemma step_pc:
  assumes "exited (p_world (step who s)) = None" "i < length (p_tasks s)"
    "h_pc (p_tasks s ! i) \<noteq> H_Dead"
  shows "h_pc (p_tasks (step who s) ! i) =
           (if who = Handler i then next_pc (h_pc (p_tasks s ! i)) else h_pc (p_tasks s ! i))"
proof -
  have r: "exited (p_world s) = None" using step_running[OF assms(1)] .
  show ?thesis
  proof (cases who)
    case Main
    then show ?thesis using r assms(2) by (simp add: step_def case_prod_beta nth_append)
  next
    case (Handler j)
    show ?thesis
    proof (cases "j = i")
      case True
      have e: "exited (snd (hstep (p_tasks s ! i) (p_world s))) = None"
        using assms(1,2) r Handler True by (simp add: step_def case_prod_beta)
      show ?thesis
        using hstep_exit[OF r e assms(3)] r assms(2) Handler True
        by (simp add: step_def case_prod_beta)
    next
      case False
      then show ?thesis using r assms(2) Handler
        by (simp add: step_def case_prod_beta)
    qed
  qed
qed

lemma next_pc_alive: "pc \<noteq> H_Dead \<Longrightarrow> next_pc pc \<noteq> H_Dead"
  by (cases pc) simp_all

lemma run_pc:
  assumes "exited (p_world (run sched s)) = None" "i < length (p_tasks s)"
    "h_pc (p_tasks s ! i) \<noteq> H_Dead"
  shows "i < length (p_tasks (run sched s))
       \<and> h_pc (p_tasks (run sched s) ! i) =
           (next_pc ^^ count_list sched (Handler i)) (h_pc (p_tasks s ! i))"
  using assms
proof (induction sched arbitrary: s)
  case Nil
  then show ?case by simp
next
  case (Cons who sched)
  have e: "exited (p_world (step who s)) = None"
    using run_running[of sched "step who s"] Cons.prems(1) by simp
  have l: "i < length (p_tasks (step who s))"
    using Cons.prems(2) step_length[of s who] by simp
  note p = step_pc[OF e Cons.prems(2,3)]
  have a: "h_pc (p_tasks (step who s) ! i) \<noteq> H_Dead"
    unfolding p using Cons.prems(3) by (simp add: next_pc_alive)
  from Cons.IH[OF _ l a] Cons.prems(1)
  have "i < length (p_tasks (run sched (step who s)))
       \<and> h_pc (p_tasks (run sched (step who s)) ! i) =
           (next_pc ^^ count_list sched (Handler i)) (h_pc (p_tasks (step who s) ! i))"
    by simp
  then show ?case unfolding p by (simp add: funpow_swap1)
qed

lemma next_pc_Done: "(next_pc ^^ n) H_Done = H_Done"
  by (induction n) simp_all

lemma next_pc_5: "pc \<noteq> H_Dead \<Longrightarrow> (next_pc ^^ 5) pc = H_Done"
  by (cases pc) (simp_all add: eval_nat_numeral)

lemma next_pc_many:
  assumes "5 \<le> n" "pc \<noteq> H_Dead"
  shows "(next_pc ^^ n) pc = H_Done"
proof -
  obtain k where n: "n = k + 5" using assms(1) by (metis le_add_diff_inverse2)
  show ?thesis unfolding n funpow_add by (simp add: next_pc_5[OF assms(2)] next_pc_Done)
qed

lemma dead_inv_boot: "dead_inv (boot lf bl)"
  by (simp add: dead_inv_def boot_def)

lemma dead_inv_step:
  assumes "dead_inv s"
  shows "dead_inv (step who s)"
  unfolding dead_inv_def
proof
  assume e: "exited (p_world (step who s)) = None"
  have r: "exited (p_world s) = None" using step_running[OF e] .
  have old: "\<And>i. i < length (p_tasks s) \<Longrightarrow> h_pc (p_tasks s ! i) \<noteq> H_Dead"
    using assms r by (simp add: dead_inv_def list_all_length)
  have "h_pc (p_tasks (step who s) ! i) \<noteq> H_Dead" if "i < length (p_tasks (step who s))" for i
  proof (cases "i < length (p_tasks s)")
    case True
    show ?thesis unfolding step_pc[OF e True old[OF True]]
      using old[OF True] by (simp add: next_pc_alive)
  next
    case False
    have "length (p_tasks (step (Handler j) s)) = length (p_tasks s)" for j
      by (simp add: step_def case_prod_beta)
    then have m: "who = Main" using False that by (cases who) auto
    have "p_tasks (step who s) =
        p_tasks s @ (if m_pc (p_main s) = M_Go then [new_task (m_conn (p_main s))] else [])"
      using r m astep_started[of "p_main s" "p_world s"] by (simp add: step_def case_prod_beta)
    then show ?thesis using False that
      by (simp add: nth_append new_task_def split: if_splits)
  qed
  then show "list_all (\<lambda>t. h_pc t \<noteq> H_Dead) (p_tasks (step who s))"
    by (simp add: list_all_length)
qed

lemma dead_inv_run: "dead_inv s \<Longrightarrow> dead_inv (run sched s)"
  by (induction sched arbitrary: s) (simp_all add: dead_inv_step)

lemma reach_alive:
  assumes "s = run sched (boot lf bl)" "exited (p_world s) = None" "i < length (p_tasks s)"
  shows "h_pc (p_tasks s ! i) \<noteq> H_Dead"
  using dead_inv_run[OF dead_inv_boot, of sched lf bl] assms
  by (simp add: dead_inv_def list_all_length)

text \<open>A goroutine that is given five statements while the process keeps running has
  returned.\<close>

lemma reach_done:
  assumes "s = run sched (boot lf bl)" "i < length (p_tasks s)"
    "exited (p_world (run later s)) = None" "5 \<le> count_list later (Handler i)"
  shows "i < length (p_tasks (run later s)) \<and> h_pc (p_tasks (run later s) ! i) = H_Done"
proof -
  have r: "exited (p_world s) = None" using run_running[OF assms(3)] .
  have a: "h_pc (p_tasks s ! i) \<noteq> H_Dead" using reach_alive[OF assms(1) r assms(2)] .
  from run_pc[OF assms(3) assms(2) a] next_pc_many[OF assms(4) a] show ?thesis by simp
qed








subsection \<open>More example runs\<close>

lemma ex_started_facts:
  "length (p_tasks ex_started) = 1
   \<and> run [Handler 0, Handler 0, Handler 0, Handler 0, Handler 0] ex_started = ex_done"
  by (simp add: ex_started_def ex_done_def exec_defs)

lemma ex_cut_facts:
  "accepted (trace (p_world ex_cut)) = [0, 1]
   \<and> map h_pc (p_tasks ex_cut) = [H_Sleep, H_Dead]
   \<and> reads (trace (p_world ex_cut)) = [(0, 1024), (1, 1024)]
   \<and> unread (conns (p_world ex_cut) ! 0) = []
   \<and> exited (p_world ex_cut) = Some 1
   \<and> written 0 (trace (p_world ex_cut)) = []
   \<and> \<not> closed (conns (p_world ex_cut) ! 0)"
  by (simp add: ex_cut_def exec_defs do_read_ok do_read_fail read_err_def read_count_def
        ex_client_def ex_client2_def)



lemma ex_pending_facts:
  "m_pc (p_main ex_pending) = M_Accept
   \<and> backlog (p_world ex_pending) = [Incoming ex_client2]
   \<and> exited (p_world ex_pending) = None
   \<and> length (p_tasks ex_pending) = 1
   \<and> h_pc (p_tasks ex_pending ! 0) = H_Read
   \<and> read_err (h_conn (p_tasks ex_pending ! 0)) (p_world ex_pending) = Some ex_eof
   \<and> accepted (trace (p_world ex_pending)) = [0]
   \<and> accepted (trace (p_world (step Main ex_pending))) = [0, 1]
   \<and> exited (p_world (step (Handler 0) ex_pending)) = Some 1
   \<and> accepted (trace (p_world (step (Handler 0) ex_pending))) = [0]
   \<and> backlog (p_world (step (Handler 0) ex_pending)) = [Incoming ex_client2]"
  by (simp add: ex_pending_def exec_defs do_read_fail read_err_def ex_client_def)

section \<open>The claims\<close>

text \<open>
  Claim C1. Each of the three failures ends the whole process. In a running process, when
  the acceptor's next statement is the \<^verbatim>\<open>Listen\<close> and the port cannot be bound, or its next
  statement is the \<^verbatim>\<open>Accept\<close> and the accept fails, or a goroutine's next statement is its
  read and the read fails, that one step sets the exit status to 1. After it no schedule
  changes the state any more: the acceptor does not return or retry, no other goroutine
  runs, and the connection whose read failed is left as it was, not closed.
\<close>

theorem fatal_errors_terminate_process:
  assumes "exited (p_world s) = None"
  shows "(m_pc (p_main s) = M_Listen \<and> listen_fail (p_world s) = Some e \<longrightarrow>
            exited (p_world (step Main s)) = Some 1
          \<and> run sched (step Main s) = step Main s)
       \<and> (m_pc (p_main s) = M_Accept \<and> backlog (p_world s) = AcceptFailed e # rest \<longrightarrow>
            exited (p_world (step Main s)) = Some 1
          \<and> run sched (step Main s) = step Main s)
       \<and> (i < length (p_tasks s) \<and> h_pc (p_tasks s ! i) = H_Read
            \<and> read_err (h_conn (p_tasks s ! i)) (p_world s) = Some e \<longrightarrow>
            exited (p_world (step (Handler i) s)) = Some 1
          \<and> run sched (step (Handler i) s) = step (Handler i) s
          \<and> conns (p_world (step (Handler i) s)) = conns (p_world s))"
proof (intro conjI impI)
  assume a: "m_pc (p_main s) = M_Listen \<and> listen_fail (p_world s) = Some e"
  then show x: "exited (p_world (step Main s)) = Some 1"
    using assms by (simp add: step_Main_listen_fail)
  then show "run sched (step Main s) = step Main s" by (simp add: run_exited)
next
  assume a: "m_pc (p_main s) = M_Accept \<and> backlog (p_world s) = AcceptFailed e # rest"
  then show x: "exited (p_world (step Main s)) = Some 1"
    using assms by (simp add: step_Main_accept_fail)
  then show "run sched (step Main s) = step Main s" by (simp add: run_exited)
next
  assume a: "i < length (p_tasks s) \<and> h_pc (p_tasks s ! i) = H_Read
            \<and> read_err (h_conn (p_tasks s ! i)) (p_world s) = Some e"
  then show x: "exited (p_world (step (Handler i) s)) = Some 1"
    using assms by (simp add: step_Handler_read_fail)
  then show "run sched (step (Handler i) s) = step (Handler i) s" by (simp add: run_exited)
  from a show "conns (p_world (step (Handler i) s)) = conns (p_world s)"
    using assms by (simp add: step_Handler_read_fail)
qed

theorem fatal_errors_terminate_process_witness:
  "exited (p_world ex_bind_fails) = None \<and> exited (p_world (step Main ex_bind_fails)) = Some 1
   \<and> exited (p_world ex_accept_fails) = None \<and> exited (p_world (step Main ex_accept_fails)) = Some 1
   \<and> exited (p_world ex_read_fails) = None
   \<and> exited (p_world (step (Handler 0) ex_read_fails)) = Some 1
   \<and> run [Main, Handler 0, Main] (step (Handler 0) ex_read_fails) = step (Handler 0) ex_read_fails
   \<and> \<not> closed (conns (p_world (step (Handler 0) ex_read_fails)) ! 0)"
proof -
  have a: "exited (p_world ex_bind_fails) = None" by (simp add: ex_bind_fails_eq)
  have b: "exited (p_world ex_accept_fails) = None" by (simp add: ex_accept_fails_eq)
  have c: "exited (p_world ex_read_fails) = None" by (simp add: ex_read_fails_eq)
  have 1: "exited (p_world (step Main ex_bind_fails)) = Some 1"
    using fatal_errors_terminate_process[OF a, where e = "Err ''address already in use''"]
    by (simp add: ex_bind_fails_eq)
  have 2: "exited (p_world (step Main ex_accept_fails)) = Some 1"
    using fatal_errors_terminate_process[OF b, where e = ex_eof and rest = "[]"]
    by (simp add: ex_accept_fails_eq)
  have 3: "exited (p_world (step (Handler 0) ex_read_fails)) = Some 1
    \<and> run [Main, Handler 0, Main] (step (Handler 0) ex_read_fails) = step (Handler 0) ex_read_fails
    \<and> conns (p_world (step (Handler 0) ex_read_fails)) = conns (p_world ex_read_fails)"
    using fatal_errors_terminate_process[OF c, where i = 0 and e = ex_eof
        and sched = "[Main, Handler 0, Main]"]
    by (simp add: ex_read_fails_eq new_task_def read_err_def open_conn_def)
  show ?thesis using a b c 1 2 3 by (simp add: ex_read_fails_eq open_conn_def)
qed

text \<open>
  Claim C2, as the program has it. A call of \<^verbatim>\<open>do\<close> whose read succeeds and which runs to
  its return passes exactly one byte string to \<^verbatim>\<open>Write\<close>, the fixed response, and its last
  two calls are that write and then the close; afterwards the connection is closed, and if
  the write did not fail the client has been sent exactly the response. The response is
  the status line \<^verbatim>\<open>HTTP/1.1 200 OK\<close>, the line end, the empty line that ends the headers,
  and the text \<^verbatim>\<open>Hey Client!\<close> with a final line end. In the running process, under every
  schedule, the byte strings written on a goroutine's connection are none before its
  line 40 and exactly the response after it, and the connection is closed exactly when the
  goroutine has returned. And every goroutine that is given five statements while the
  process keeps running has returned, with the response written once and its connection
  closed. Not every accepted connection whose read succeeds gets that far: the process
  may exit first.
\<close>

theorem do_writes_fixed_response_then_closes:
  "(read_err r w = None \<longrightarrow>
        written r (do_events r w) = [response]
      \<and> (\<exists>before. do_events r w = before @ [EvWrite r response, EvClose r])
      \<and> closed (conns (snd (do r w)) ! r)
      \<and> (write_err r w = None \<longrightarrow>
            sent (conns (snd (do r w)) ! r) = sent (conns w ! r) @ response))
   \<and> response =
       ''HTTP/1.1 200 OK'' @ [CHR 0x0D, CHR 0x0A, CHR 0x0D, CHR 0x0A] @
       ''Hey Client!'' @ [CHR 0x0D, CHR 0x0A]
   \<and> (s = run sched (boot lf bl) \<and> i < length (p_tasks s) \<longrightarrow>
        written (h_conn (p_tasks s ! i)) (trace (p_world s)) =
          (if h_pc (p_tasks s ! i) \<in> {H_Defer, H_Return, H_Done} then [response] else [])
      \<and> closed (conns (p_world s) ! h_conn (p_tasks s ! i)) = (h_pc (p_tasks s ! i) = H_Done))
   \<and> (s = run sched (boot lf bl) \<and> i < length (p_tasks s)
        \<and> exited (p_world (run later s)) = None \<and> 5 \<le> count_list later (Handler i) \<longrightarrow>
        h_pc (p_tasks (run later s) ! i) = H_Done
      \<and> written (h_conn (p_tasks (run later s) ! i)) (trace (p_world (run later s))) = [response]
      \<and> closed (conns (p_world (run later s)) ! h_conn (p_tasks (run later s) ! i)))"
proof (intro conjI impI)
  assume a: "read_err r w = None"
  from read_err_NoneD[OF a] have v: "r < length (conns w)" by simp
  show "written r (do_events r w) = [response]" by (simp add: do_events_ok[OF a])
  show "\<exists>before. do_events r w = before @ [EvWrite r response, EvClose r]"
    by (simp add: do_events_ok[OF a])
  show "closed (conns (snd (do r w)) ! r)" using v by (simp add: do_ok[OF a])
  assume "write_err r w = None"
  then show "sent (conns (snd (do r w)) ! r) = sent (conns w ! r) @ response"
    using v read_err_NoneD[OF a] by (simp add: do_ok[OF a] delivered_def write_err_def)
next
  show "response =
       ''HTTP/1.1 200 OK'' @ [CHR 0x0D, CHR 0x0A, CHR 0x0D, CHR 0x0A] @
       ''Hey Client!'' @ [CHR 0x0D, CHR 0x0A]"
    by (simp add: response_def CRLF_def)
next
  assume a: "s = run sched (boot lf bl) \<and> i < length (p_tasks s)"
  then have t: "task_inv (p_world s) (p_tasks s ! i)" using reach_task_inv by blast
  have "written (h_conn (p_tasks s ! i)) (trace (p_world s)) =
      written (h_conn (p_tasks s ! i)) (calls_at (h_conn (p_tasks s ! i)) (h_pc (p_tasks s ! i)))"
    using t written_conn_trace[of "h_conn (p_tasks s ! i)" "trace (p_world s)"]
    by (simp add: task_inv_def)
  then show "written (h_conn (p_tasks s ! i)) (trace (p_world s)) =
          (if h_pc (p_tasks s ! i) \<in> {H_Defer, H_Return, H_Done} then [response] else [])"
    by (cases "h_pc (p_tasks s ! i)") simp_all
  show "closed (conns (p_world s) ! h_conn (p_tasks s ! i)) = (h_pc (p_tasks s ! i) = H_Done)"
    using t by (simp add: task_inv_def)
next
  assume a: "s = run sched (boot lf bl) \<and> i < length (p_tasks s)
        \<and> exited (p_world (run later s)) = None \<and> 5 \<le> count_list later (Handler i)"
  let ?s = "run later s"
  from a have s: "s = run sched (boot lf bl)" and i: "i < length (p_tasks s)"
    and e: "exited (p_world ?s) = None" and n: "5 \<le> count_list later (Handler i)"
    by blast+
  from reach_done[OF s i e n]
  have l: "i < length (p_tasks ?s)" and d: "h_pc (p_tasks ?s ! i) = H_Done" by blast+
  have r: "?s = run (sched @ later) (boot lf bl)" unfolding s by (simp add: run_append)
  have t: "task_inv (p_world ?s) (p_tasks ?s ! i)" using reach_task_inv[OF r l] .
  show "h_pc (p_tasks ?s ! i) = H_Done" using d .
  have "written (h_conn (p_tasks ?s ! i)) (trace (p_world ?s)) =
      written (h_conn (p_tasks ?s ! i)) (calls_at (h_conn (p_tasks ?s ! i)) (h_pc (p_tasks ?s ! i)))"
    using t written_conn_trace[of "h_conn (p_tasks ?s ! i)" "trace (p_world ?s)"]
    by (simp add: task_inv_def)
  then show "written (h_conn (p_tasks ?s ! i)) (trace (p_world ?s)) = [response]"
    unfolding d by simp
  show "closed (conns (p_world ?s) ! h_conn (p_tasks ?s ! i))"
    using t d by (simp add: task_inv_def)
qed

theorem do_writes_fixed_response_then_closes_witness:
  "read_err 0 (ex_world ex_client) = None \<and> write_err 0 (ex_world ex_client) = None
   \<and> written 0 (do_events 0 (ex_world ex_client)) =
       [''HTTP/1.1 200 OK'' @ [CHR 0x0D, CHR 0x0A, CHR 0x0D, CHR 0x0A] @
        ''Hey Client!'' @ [CHR 0x0D, CHR 0x0A]]
   \<and> sent (conns (snd (do 0 (ex_world ex_client))) ! 0) = response
   \<and> closed (conns (snd (do 0 (ex_world ex_client))) ! 0)
   \<and> exited (p_world ex_done) = None
   \<and> ex_done = run [Handler 0, Handler 0, Handler 0, Handler 0, Handler 0] ex_started
   \<and> h_pc (p_tasks ex_done ! 0) = H_Done
   \<and> written 0 (trace (p_world ex_done)) = [response]
   \<and> closed (conns (p_world ex_done) ! 0)"
proof -
  let ?five = "[Handler 0, Handler 0, Handler 0, Handler 0, Handler 0]"
  have a: "read_err 0 (ex_world ex_client) = None" by (simp add: ex_read_ok ex_client_def)
  have b: "write_err 0 (ex_world ex_client) = None"
    by (simp add: write_err_def ex_world_def open_conn_def ex_client_def)
  have c: "sent (conns (ex_world ex_client) ! 0) = []" by (simp add: ex_world_def open_conn_def)
  have f: "run ?five ex_started = ex_done" using ex_started_facts by blast
  have d: "ex_started = run [Main, Main, Main, Main, Main] (boot None [Incoming ex_client])
      \<and> 0 < length (p_tasks ex_started)"
    using ex_started_facts by (simp add: ex_started_def)
  have g: "exited (p_world (run ?five ex_started)) = None \<and> 5 \<le> count_list ?five (Handler 0)"
    unfolding f using ex_done_facts by simp
  note t = do_writes_fixed_response_then_closes[where r = 0 and w = "ex_world ex_client"
      and s = ex_started and sched = "[Main, Main, Main, Main, Main]" and lf = None
      and bl = "[Incoming ex_client]" and i = 0 and later = ?five]
  from t a b c have 1: "written 0 (do_events 0 (ex_world ex_client)) = [response]
      \<and> sent (conns (snd (do 0 (ex_world ex_client))) ! 0) = response
      \<and> closed (conns (snd (do 0 (ex_world ex_client))) ! 0)" by simp
  from t have 2: "response = ''HTTP/1.1 200 OK'' @ [CHR 0x0D, CHR 0x0A, CHR 0x0D, CHR 0x0A] @
        ''Hey Client!'' @ [CHR 0x0D, CHR 0x0A]" by blast
  from t d g have "h_pc (p_tasks (run ?five ex_started) ! 0) = H_Done
      \<and> written (h_conn (p_tasks (run ?five ex_started) ! 0))
          (trace (p_world (run ?five ex_started))) = [response]
      \<and> closed (conns (p_world (run ?five ex_started)) ! h_conn (p_tasks (run ?five ex_started) ! 0))"
    by blast
  then have 3: "h_pc (p_tasks ex_done ! 0) = H_Done
      \<and> written 0 (trace (p_world ex_done)) = [response]
      \<and> closed (conns (p_world ex_done) ! 0)"
    unfolding f using ex_done_facts by simp
  have 4: "exited (p_world ex_done) = None" using ex_done_facts by blast
  show ?thesis using a b 1 2 3 4 f by simp
qed

text \<open>
  Where the claim as worded fails: two clients connect, the first handler's read
  succeeds, and while it is at its sleep the second handler's read fails. Line 35 ends the
  process; under no schedule is anything written to the first connection, and it is never
  closed by a call of the program.
\<close>

theorem handler_cut_short_counterexample:
  "accepted (trace (p_world ex_cut)) = [0, 1]
   \<and> map h_pc (p_tasks ex_cut) = [H_Sleep, H_Dead]
   \<and> reads (trace (p_world ex_cut)) = [(0, 1024), (1, 1024)]
   \<and> unread (conns (p_world ex_cut) ! 0) = []
   \<and> exited (p_world ex_cut) = Some 1
   \<and> (\<forall>sched. written 0 (trace (p_world (run sched ex_cut))) = []
              \<and> \<not> closed (conns (p_world (run sched ex_cut)) ! 0))"
proof -
  have "run sched ex_cut = ex_cut" for sched
    using ex_cut_facts by (intro run_exited) simp
  then show ?thesis using ex_cut_facts by simp
qed

text \<open>
  Claim C3. Take any two runs of \<^verbatim>\<open>do\<close>, on any connections in any worlds (so with any
  request bytes), in both of which the read succeeds. The byte strings passed to
  \<^verbatim>\<open>Write\<close> are the same in both; on the same connection reference the whole sequence of
  calls is the same.
\<close>

theorem response_independent_of_request:
  assumes "read_err r1 w1 = None" and "read_err r2 w2 = None"
  shows "written r1 (do_events r1 w1) = written r2 (do_events r2 w2)
       \<and> (r1 = r2 \<longrightarrow> do_events r1 w1 = do_events r2 w2)"
  using assms by (auto simp: do_events_ok)

theorem response_independent_of_request_witness:
  "read_err 0 (ex_world ex_client) = None \<and> read_err 0 (ex_world ex_client2) = None
   \<and> request ex_client \<noteq> request ex_client2
   \<and> written 0 (do_events 0 (ex_world ex_client)) = written 0 (do_events 0 (ex_world ex_client2))
   \<and> do_events 0 (ex_world ex_client) = do_events 0 (ex_world ex_client2)"
proof -
  have a: "read_err 0 (ex_world ex_client) = None" by (simp add: ex_read_ok ex_client_def)
  have b: "read_err 0 (ex_world ex_client2) = None" by (simp add: ex_read_ok ex_client2_def)
  show ?thesis using response_independent_of_request[OF a b] a b by (simp add: ex_client_def ex_client2_def)
qed

text \<open>
  Claim C4. A call of \<^verbatim>\<open>do\<close> makes exactly one read, with a buffer of 1024 bytes, whether
  the read succeeds or not. When it succeeds it takes at most 1024 bytes, the buffer holds
  them followed by the untouched zero bytes, and everything after them is still unread
  when \<^verbatim>\<open>do\<close> is over; a request longer than 1024 bytes always leaves a rest. In the
  running process, under every schedule, the reads on a goroutine's connection are none
  before its first statement and the one read of 1024 bytes from then on.
\<close>

theorem do_reads_once_into_1024:
  "reads (do_events r w) = [(r, 1024)]
   \<and> (read_err r w = None \<longrightarrow>
        read_count (conns w ! r) \<le> 1024
      \<and> h_buffer (fst (do r w)) =
          take (read_count (conns w ! r)) (unread (conns w ! r)) @
          replicate (1024 - read_count (conns w ! r)) (CHR 0x00)
      \<and> unread (conns (snd (do r w)) ! r) = drop (read_count (conns w ! r)) (unread (conns w ! r))
      \<and> (1024 < length (unread (conns w ! r)) \<longrightarrow> unread (conns (snd (do r w)) ! r) \<noteq> []))
   \<and> (s = run sched (boot lf bl) \<and> i < length (p_tasks s) \<longrightarrow>
        filter (\<lambda>p. fst p = h_conn (p_tasks s ! i)) (reads (trace (p_world s))) =
          (if h_pc (p_tasks s ! i) = H_Read then [] else [(h_conn (p_tasks s ! i), 1024)]))"
proof (intro conjI impI)
  show "reads (do_events r w) = [(r, 1024)]"
    by (cases "read_err r w") (simp_all add: do_events_ok do_events_fail)
next
  assume a: "read_err r w = None"
  from read_err_NoneD[OF a] have v: "r < length (conns w)" by simp
  show "read_count (conns w ! r) \<le> 1024" by (simp add: read_count_def)
  show "h_buffer (fst (do r w)) =
          take (read_count (conns w ! r)) (unread (conns w ! r)) @
          replicate (1024 - read_count (conns w ! r)) (CHR 0x00)"
    by (simp add: do_ok[OF a] make_bytes_def)
  show u: "unread (conns (snd (do r w)) ! r) = drop (read_count (conns w ! r)) (unread (conns w ! r))"
    using v by (simp add: do_ok[OF a])
  assume "1024 < length (unread (conns w ! r))"
  then show "unread (conns (snd (do r w)) ! r) \<noteq> []"
    unfolding u by (simp add: read_count_def)
next
  assume a: "s = run sched (boot lf bl) \<and> i < length (p_tasks s)"
  then have t: "task_inv (p_world s) (p_tasks s ! i)" using reach_task_inv by blast
  have "filter (\<lambda>p. fst p = h_conn (p_tasks s ! i)) (reads (trace (p_world s))) =
      reads (calls_at (h_conn (p_tasks s ! i)) (h_pc (p_tasks s ! i)))"
    using t reads_conn_trace[of "h_conn (p_tasks s ! i)" "trace (p_world s)"]
    by (simp add: task_inv_def)
  then show "filter (\<lambda>p. fst p = h_conn (p_tasks s ! i)) (reads (trace (p_world s))) =
          (if h_pc (p_tasks s ! i) = H_Read then [] else [(h_conn (p_tasks s ! i), 1024)])"
    by (cases "h_pc (p_tasks s ! i)") simp_all
qed

theorem do_reads_once_into_1024_witness:
  "read_err 0 (ex_world ex_big) = None
   \<and> length (unread (conns (ex_world ex_big) ! 0)) = 2000
   \<and> reads (do_events 0 (ex_world ex_big)) = [(0, 1024)]
   \<and> h_buffer (fst (do 0 (ex_world ex_big))) = replicate 1024 (CHR ''a'')
   \<and> unread (conns (snd (do 0 (ex_world ex_big))) ! 0) = replicate 976 (CHR ''a'')
   \<and> filter (\<lambda>p. fst p = 0) (reads (trace (p_world ex_done))) = [(0, 1024)]"
proof -
  have a: "read_err 0 (ex_world ex_big) = None" by (simp add: ex_read_ok ex_big_def)
  have c: "conns (ex_world ex_big) ! 0 = open_conn ex_big" by (simp add: ex_world_def)
  have n: "read_count (open_conn ex_big) = 1024"
    by (simp add: read_count_def open_conn_def ex_big_def)
  have u: "unread (open_conn ex_big) = replicate 2000 (CHR ''a'')"
    by (simp add: open_conn_def ex_big_def)
  have d: "ex_done =
     run [Main, Main, Main, Main, Main, Handler 0, Handler 0, Handler 0, Handler 0, Handler 0]
       (boot None [Incoming ex_client]) \<and> 0 < length (p_tasks ex_done)"
    using ex_done_facts by (simp add: ex_done_def)
  note t = do_reads_once_into_1024[of 0 "ex_world ex_big" ex_done
      "[Main, Main, Main, Main, Main, Handler 0, Handler 0, Handler 0, Handler 0, Handler 0]"
      None "[Incoming ex_client]" 0]
  from t have 1: "reads (do_events 0 (ex_world ex_big)) = [(0, 1024)]" by blast
  from t a have "h_buffer (fst (do 0 (ex_world ex_big))) =
          take (read_count (conns (ex_world ex_big) ! 0)) (unread (conns (ex_world ex_big) ! 0)) @
          replicate (1024 - read_count (conns (ex_world ex_big) ! 0)) (CHR 0x00)
      \<and> unread (conns (snd (do 0 (ex_world ex_big))) ! 0) =
          drop (read_count (conns (ex_world ex_big) ! 0)) (unread (conns (ex_world ex_big) ! 0))"
    by blast
  then have 2: "h_buffer (fst (do 0 (ex_world ex_big))) = replicate 1024 (CHR ''a'')
      \<and> unread (conns (snd (do 0 (ex_world ex_big))) ! 0) = replicate 976 (CHR ''a'')"
    by (simp add: c n u)
  from t d have "filter (\<lambda>p. fst p = h_conn (p_tasks ex_done ! 0)) (reads (trace (p_world ex_done))) =
          (if h_pc (p_tasks ex_done ! 0) = H_Read then [] else [(h_conn (p_tasks ex_done ! 0), 1024)])"
    by blast
  then have 3: "filter (\<lambda>p. fst p = 0) (reads (trace (p_world ex_done))) = [(0, 1024)]"
    using ex_done_facts by simp
  show ?thesis using a 1 2 3 by (simp add: c u)
qed

text \<open>
  Claim C5. When the read succeeds, the calls of \<^verbatim>\<open>do\<close> are, in this order: the read
  into 1024 bytes, the sleep of 8 seconds (in nanoseconds), the write of the response, the
  close. Running the goroutine statement by statement gives the same result, through the
  statements in source order. In any world a goroutine's next statement is the successor
  of its current one; and in the running process, under every schedule, the calls made on
  a goroutine's connection are the ones its position says, a prefix of read, write,
  close.
\<close>

theorem do_order_read_sleep_write_close:
  "(read_err r w = None \<longrightarrow>
        do_events r w = [EvRead r 1024, EvSleep 8000000000, EvWrite r response, EvClose r]
      \<and> hsteps 5 (new_task r, w) = do r w
      \<and> map (\<lambda>n. h_pc (fst (hsteps n (new_task r, w)))) [0, 1, 2, 3, 4, 5] =
          [H_Read, H_Sleep, H_Write, H_Defer, H_Return, H_Done])
   \<and> h_pc (fst (hstep t w)) =
       (case h_pc t of
          H_Read \<Rightarrow> (if read_err (h_conn t) w = None then H_Sleep else H_Dead)
        | H_Sleep \<Rightarrow> H_Write | H_Write \<Rightarrow> H_Defer | H_Defer \<Rightarrow> H_Return
        | H_Return \<Rightarrow> H_Done | H_Done \<Rightarrow> H_Done | H_Dead \<Rightarrow> H_Dead)
   \<and> (s = run sched (boot lf bl) \<and> i < length (p_tasks s) \<longrightarrow>
        conn_trace (h_conn (p_tasks s ! i)) (trace (p_world s)) =
          calls_at (h_conn (p_tasks s ! i)) (h_pc (p_tasks s ! i))
      \<and> (\<exists>k. conn_trace (h_conn (p_tasks s ! i)) (trace (p_world s)) =
            take k [EvRead (h_conn (p_tasks s ! i)) 1024,
                    EvWrite (h_conn (p_tasks s ! i)) response,
                    EvClose (h_conn (p_tasks s ! i))]))"
proof (intro conjI impI)
  assume a: "read_err r w = None"
  show "do_events r w = [EvRead r 1024, EvSleep 8000000000, EvWrite r response, EvClose r]"
    by (simp add: do_events_ok[OF a] second_def)
  show "hsteps 5 (new_task r, w) = do r w" by (rule hsteps_5_do)
  show "map (\<lambda>n. h_pc (fst (hsteps n (new_task r, w)))) [0, 1, 2, 3, 4, 5] =
          [H_Read, H_Sleep, H_Write, H_Defer, H_Return, H_Done]"
    by (rule hsteps_pcs_ok[OF a])
next
  show "h_pc (fst (hstep t w)) =
       (case h_pc t of
          H_Read \<Rightarrow> (if read_err (h_conn t) w = None then H_Sleep else H_Dead)
        | H_Sleep \<Rightarrow> H_Write | H_Write \<Rightarrow> H_Defer | H_Defer \<Rightarrow> H_Return
        | H_Return \<Rightarrow> H_Done | H_Done \<Rightarrow> H_Done | H_Dead \<Rightarrow> H_Dead)"
    by (rule hstep_pc)
next
  assume a: "s = run sched (boot lf bl) \<and> i < length (p_tasks s)"
  then have t: "task_inv (p_world s) (p_tasks s ! i)" using reach_task_inv by blast
  then show c: "conn_trace (h_conn (p_tasks s ! i)) (trace (p_world s)) =
          calls_at (h_conn (p_tasks s ! i)) (h_pc (p_tasks s ! i))"
    by (simp add: task_inv_def)
  let ?r = "h_conn (p_tasks s ! i)"
  have "\<exists>k. calls_at ?r (h_pc (p_tasks s ! i)) =
            take k [EvRead ?r 1024, EvWrite ?r response, EvClose ?r]"
  proof (cases "h_pc (p_tasks s ! i)")
    case H_Read
    then show ?thesis by (intro exI[of _ 0]) simp
  next
    case H_Sleep
    then show ?thesis by (intro exI[of _ 1]) simp
  next
    case H_Write
    then show ?thesis by (intro exI[of _ 1]) simp
  next
    case H_Defer
    then show ?thesis by (intro exI[of _ 2]) simp
  next
    case H_Return
    then show ?thesis by (intro exI[of _ 2]) simp
  next
    case H_Done
    then show ?thesis by (intro exI[of _ 3]) simp
  next
    case H_Dead
    then show ?thesis by (intro exI[of _ 1]) simp
  qed
  then show "\<exists>k. conn_trace ?r (trace (p_world s)) =
            take k [EvRead ?r 1024, EvWrite ?r response, EvClose ?r]"
    unfolding c .
qed

theorem do_order_read_sleep_write_close_witness:
  "read_err 0 (ex_world ex_client) = None
   \<and> do_events 0 (ex_world ex_client) =
       [EvRead 0 1024, EvSleep 8000000000, EvWrite 0 response, EvClose 0]
   \<and> conn_trace 0 (trace (p_world ex_done)) = [EvRead 0 1024, EvWrite 0 response, EvClose 0]"
proof -
  have a: "read_err 0 (ex_world ex_client) = None" by (simp add: ex_read_ok ex_client_def)
  have d: "ex_done =
     run [Main, Main, Main, Main, Main, Handler 0, Handler 0, Handler 0, Handler 0, Handler 0]
       (boot None [Incoming ex_client]) \<and> 0 < length (p_tasks ex_done)"
    using ex_done_facts by (simp add: ex_done_def)
  note t = do_order_read_sleep_write_close[of 0 "ex_world ex_client" _ ex_done
      "[Main, Main, Main, Main, Main, Handler 0, Handler 0, Handler 0, Handler 0, Handler 0]"
      None "[Incoming ex_client]" 0]
  from t a have 1: "do_events 0 (ex_world ex_client) =
       [EvRead 0 1024, EvSleep 8000000000, EvWrite 0 response, EvClose 0]" by blast
  from t d have "conn_trace (h_conn (p_tasks ex_done ! 0)) (trace (p_world ex_done)) =
          calls_at (h_conn (p_tasks ex_done ! 0)) (h_pc (p_tasks ex_done ! 0))" by blast
  then have 2: "conn_trace 0 (trace (p_world ex_done)) =
      [EvRead 0 1024, EvWrite 0 response, EvClose 0]"
    using ex_done_facts by simp
  show ?thesis using a 1 2 by simp
qed




text \<open>
  Claim C7, as the program has it. Goroutines are modelled as interleaved statements
  under an arbitrary schedule. Right after a successful accept the acceptor's next two
  statements print and start the goroutine, which stands at its first statement, and the
  acceptor is back at the head of the loop; its third statement brings it to the accept.
  Whatever statements the handlers run in between, as long as the process has not exited,
  the acceptor's next statement has the same result for the acceptor, the pending clients,
  the exit status and the goroutine it starts. And the acceptor can always take its next
  statement, unless it waits in \<^verbatim>\<open>Accept\<close> with no client pending. The one way a client's
  handling stops other clients from connecting is a failing read: it ends the process, and
  once the process has exited no statement of the acceptor or of anyone else changes the
  state.
\<close>

theorem acceptor_not_blocked_by_handlers:
  "(exited (p_world s) = None \<and> m_pc (p_main s) = M_Connected \<longrightarrow>
      run [Main, Main] s =
        \<lparr>p_world = emit (EvGo (m_conn (p_main s)))
                    (fmt_Println ''client connected at: '' (p_world s)),
         p_main = (p_main s)\<lparr>m_pc := M_Waiting\<rparr>,
         p_tasks = p_tasks s @ [new_task (m_conn (p_main s))]\<rparr>
    \<and> m_pc (p_main (run [Main, Main, Main] s)) = M_Accept)
   \<and> (Main \<notin> set hs \<and> exited (p_world (run hs s)) = None \<longrightarrow>
        p_main (step Main (run hs s)) = p_main (step Main s)
      \<and> backlog (p_world (step Main (run hs s))) = backlog (p_world (step Main s))
      \<and> exited (p_world (step Main (run hs s))) = exited (p_world (step Main s))
      \<and> drop (length (p_tasks (run hs s))) (p_tasks (step Main (run hs s))) =
          drop (length (p_tasks s)) (p_tasks (step Main s)))
   \<and> (exited (p_world s) = None \<and> m_pc (p_main s) \<noteq> M_Dead
        \<and> (m_pc (p_main s) = M_Accept \<longrightarrow> backlog (p_world s) \<noteq> []) \<longrightarrow>
        step Main s \<noteq> s)
   \<and> (exited (p_world s) = None \<and> i < length (p_tasks s) \<and> h_pc (p_tasks s ! i) = H_Read
        \<and> read_err (h_conn (p_tasks s ! i)) (p_world s) = Some e \<longrightarrow>
        exited (p_world (step (Handler i) s)) = Some 1
      \<and> run later (step (Handler i) s) = step (Handler i) s)
   \<and> (exited (p_world (run hs s)) \<noteq> None \<longrightarrow> run later (run hs s) = run hs s)"
proof (intro conjI impI)
  assume a: "exited (p_world s) = None \<and> m_pc (p_main s) = M_Connected"
  then show "run [Main, Main] s =
        \<lparr>p_world = emit (EvGo (m_conn (p_main s)))
                    (fmt_Println ''client connected at: '' (p_world s)),
         p_main = (p_main s)\<lparr>m_pc := M_Waiting\<rparr>,
         p_tasks = p_tasks s @ [new_task (m_conn (p_main s))]\<rparr>"
    by (simp add: step_def astep_def main_connected_def main_go_def fmt_Println_def emit_def)
  from a show "m_pc (p_main (run [Main, Main, Main] s)) = M_Accept"
    by (simp add: step_def astep_def main_connected_def main_go_def main_waiting_def
          fmt_Println_def emit_def)
next
  assume a: "Main \<notin> set hs \<and> exited (p_world (run hs s)) = None"
  have x: "exited (p_world s) = None"
  proof (rule ccontr)
    assume "exited (p_world s) \<noteq> None"
    then show False using a run_exited[of s hs] by simp
  qed
  from a handlers_env[of hs s]
  have m: "p_main (run hs s) = p_main s" and e: "same_env (p_world s) (p_world (run hs s))"
    by simp_all
  note f = astep_env[OF e, of "p_main s"]
  show "p_main (step Main (run hs s)) = p_main (step Main s)"
    using a x m f by (simp add: step_def case_prod_beta)
  show "backlog (p_world (step Main (run hs s))) = backlog (p_world (step Main s))"
    using a x m f by (simp add: step_def case_prod_beta)
  show "exited (p_world (step Main (run hs s))) = exited (p_world (step Main s))"
    using a x m f by (simp add: step_def case_prod_beta)
  show "drop (length (p_tasks (run hs s))) (p_tasks (step Main (run hs s))) =
          drop (length (p_tasks s)) (p_tasks (step Main s))"
    using a x m f by (simp add: step_def case_prod_beta)
next
  assume "exited (p_world s) = None \<and> m_pc (p_main s) \<noteq> M_Dead
        \<and> (m_pc (p_main s) = M_Accept \<longrightarrow> backlog (p_world s) \<noteq> [])"
  then show "step Main s \<noteq> s" by (simp add: main_progress)
next
  assume a: "exited (p_world s) = None \<and> i < length (p_tasks s) \<and> h_pc (p_tasks s ! i) = H_Read
        \<and> read_err (h_conn (p_tasks s ! i)) (p_world s) = Some e"
  then show x: "exited (p_world (step (Handler i) s)) = Some 1"
    by (simp add: step_Handler_read_fail)
  then show "run later (step (Handler i) s) = step (Handler i) s" by (simp add: run_exited)
next
  assume "exited (p_world (run hs s)) \<noteq> None"
  then show "run later (run hs s) = run hs s" by (rule run_exited)
qed


theorem acceptor_not_blocked_by_handlers_witness:
  "exited (p_world ex_connected) = None \<and> m_pc (p_main ex_connected) = M_Connected
   \<and> p_tasks (run [Main, Main] ex_connected) = [new_task 0]
   \<and> m_pc (p_main (run [Main, Main, Main] ex_connected)) = M_Accept
   \<and> map h_pc (p_tasks (run [Handler 0, Handler 0] ex_two)) = [H_Write]
   \<and> exited (p_world (run [Handler 0, Handler 0] ex_two)) = None
   \<and> p_main (step Main (run [Handler 0, Handler 0] ex_two)) = \<lparr>m_conn = 1, m_pc = M_Connected\<rparr>
   \<and> step Main ex_two \<noteq> ex_two
   \<and> exited (p_world ex_pending) = None
   \<and> exited (p_world (step (Handler 0) ex_pending)) = Some 1
   \<and> run [Main, Main] (step (Handler 0) ex_pending) = step (Handler 0) ex_pending"
proof -
  have a: "exited (p_world ex_connected) = None \<and> m_pc (p_main ex_connected) = M_Connected"
    by (simp add: ex_connected_eq)
  have b: "Main \<notin> set [Handler 0, Handler 0]
      \<and> exited (p_world (run [Handler 0, Handler 0] ex_two)) = None"
    using ex_two_sleeping by simp
  have c: "exited (p_world ex_two) = None \<and> m_pc (p_main ex_two) \<noteq> M_Dead
      \<and> (m_pc (p_main ex_two) = M_Accept \<longrightarrow> backlog (p_world ex_two) \<noteq> [])"
    by (simp add: ex_two_eq)
  have d: "p_main (step Main ex_two) = \<lparr>m_conn = 1, m_pc = M_Connected\<rparr>"
    by (simp add: ex_two_eq exec_defs)
  from acceptor_not_blocked_by_handlers[where s = ex_connected and hs = "[]"] a
  have r: "run [Main, Main] ex_connected =
        \<lparr>p_world = emit (EvGo (m_conn (p_main ex_connected)))
                    (fmt_Println ''client connected at: '' (p_world ex_connected)),
         p_main = (p_main ex_connected)\<lparr>m_pc := M_Waiting\<rparr>,
         p_tasks = p_tasks ex_connected @ [new_task (m_conn (p_main ex_connected))]\<rparr>"
    and 0: "m_pc (p_main (run [Main, Main, Main] ex_connected)) = M_Accept"
    by blast+
  have 1: "p_tasks (run [Main, Main] ex_connected) = [new_task 0]"
    unfolding r by (simp add: ex_connected_eq)
  from acceptor_not_blocked_by_handlers[where s = ex_two and hs = "[Handler 0, Handler 0]"] b
  have "p_main (step Main (run [Handler 0, Handler 0] ex_two)) = p_main (step Main ex_two)"
    by blast
  then have 2: "p_main (step Main (run [Handler 0, Handler 0] ex_two)) =
      \<lparr>m_conn = 1, m_pc = M_Connected\<rparr>"
    unfolding d .
  from acceptor_not_blocked_by_handlers[where s = ex_two and hs = "[]"] c
  have 3: "step Main ex_two \<noteq> ex_two" by blast
  have p: "exited (p_world ex_pending) = None \<and> 0 < length (p_tasks ex_pending)
      \<and> h_pc (p_tasks ex_pending ! 0) = H_Read
      \<and> read_err (h_conn (p_tasks ex_pending ! 0)) (p_world ex_pending) = Some ex_eof"
    using ex_pending_facts by simp
  from acceptor_not_blocked_by_handlers[where s = ex_pending and i = 0 and e = ex_eof
      and later = "[Main, Main]" and hs = "[Handler 0]"] p
  have 4: "exited (p_world (step (Handler 0) ex_pending)) = Some 1
      \<and> run [Main, Main] (step (Handler 0) ex_pending) = step (Handler 0) ex_pending"
    by blast
  have q: "exited (p_world (run [Handler 0] ex_pending)) \<noteq> None" using 4 by simp
  from acceptor_not_blocked_by_handlers[where s = ex_pending and hs = "[Handler 0]"
      and later = "[Main]"] q
  have 5: "run [Main] (run [Handler 0] ex_pending) = run [Handler 0] ex_pending" by blast
  show ?thesis using a b 0 1 2 3 4 p ex_two_sleeping by blast
qed

text \<open>
  Where the claim as worded fails: a second client is pending and the acceptor stands at
  the accept, which would return it. The first handler's read fails instead; line 35 ends
  the process, and under no schedule is the second client accepted.
\<close>

theorem failed_read_stops_accepting_counterexample:
  "m_pc (p_main ex_pending) = M_Accept
   \<and> backlog (p_world ex_pending) = [Incoming ex_client2]
   \<and> exited (p_world ex_pending) = None
   \<and> accepted (trace (p_world (step Main ex_pending))) = [0, 1]
   \<and> exited (p_world (step (Handler 0) ex_pending)) = Some 1
   \<and> (\<forall>sched. accepted (trace (p_world (run sched (step (Handler 0) ex_pending)))) = [0]
              \<and> backlog (p_world (run sched (step (Handler 0) ex_pending))) =
                  [Incoming ex_client2])"
proof -
  have "run sched (step (Handler 0) ex_pending) = step (Handler 0) ex_pending" for sched
    using ex_pending_facts by (intro run_exited) simp
  then show ?thesis using ex_pending_facts by simp
qed

text \<open>
  Claim C8. When the read succeeds then, whatever the outcome of the write, after four
  statements the goroutine has the close of its connection on its deferred stack and
  stands at the return; the last two calls of \<^verbatim>\<open>do\<close> are the write and then the close,
  the call completes and the connection is closed. Every call of \<^verbatim>\<open>do\<close> that completes
  leaves its connection closed. In the running process, under every schedule, a goroutine
  at its return has exactly that close deferred, and its connection is closed exactly
  when it has returned.
\<close>

theorem close_deferred_regardless_of_write:
  "(read_err r w = None \<longrightarrow>
      h_deferred (fst (hsteps 4 (new_task r, with_write_fail r res w))) = [DeferClose r]
    \<and> h_pc (fst (hsteps 4 (new_task r, with_write_fail r res w))) = H_Return
    \<and> (\<exists>before. do_events r (with_write_fail r res w) =
          before @ [EvWrite r response, EvClose r])
    \<and> h_pc (fst (do r (with_write_fail r res w))) = H_Done
    \<and> closed (conns (snd (do r (with_write_fail r res w))) ! r))
   \<and> (h_pc (fst (do r w)) = H_Done \<longrightarrow> closed (conns (snd (do r w)) ! r))
   \<and> (s = run sched (boot lf bl) \<and> i < length (p_tasks s) \<longrightarrow>
        h_deferred (p_tasks s ! i) =
          (if h_pc (p_tasks s ! i) = H_Return then [DeferClose (h_conn (p_tasks s ! i))] else [])
      \<and> closed (conns (p_world s) ! h_conn (p_tasks s ! i)) = (h_pc (p_tasks s ! i) = H_Done))"
proof (intro conjI impI)
  assume a: "read_err r w = None"
  let ?w = "with_write_fail r res w"
  have b: "read_err r ?w = None" using a by simp
  from read_err_NoneD[OF b] have v: "r < length (conns ?w)" by simp
  show "h_deferred (fst (hsteps 4 (new_task r, ?w))) = [DeferClose r]"
    by (simp add: hsteps_4_ok[OF b])
  show "h_pc (fst (hsteps 4 (new_task r, ?w))) = H_Return"
    by (simp add: hsteps_4_ok[OF b])
  show "\<exists>before. do_events r ?w = before @ [EvWrite r response, EvClose r]"
    by (simp add: do_events_ok[OF b])
  show "h_pc (fst (do r ?w)) = H_Done" by (simp add: do_ok[OF b])
  show "closed (conns (snd (do r ?w)) ! r)" using v by (simp add: do_ok[OF b])
next
  assume d: "h_pc (fst (do r w)) = H_Done"
  show "closed (conns (snd (do r w)) ! r)"
  proof (cases "read_err r w")
    case None
    from read_err_NoneD[OF None] have v: "r < length (conns w)" by simp
    then show ?thesis by (simp add: do_ok[OF None])
  next
    case (Some e)
    with d show ?thesis by (simp add: do_fail)
  qed
next
  assume a: "s = run sched (boot lf bl) \<and> i < length (p_tasks s)"
  then have t: "task_inv (p_world s) (p_tasks s ! i)" using reach_task_inv by blast
  then show "h_deferred (p_tasks s ! i) =
          (if h_pc (p_tasks s ! i) = H_Return then [DeferClose (h_conn (p_tasks s ! i))] else [])"
    by (simp add: task_inv_def)
  from t show "closed (conns (p_world s) ! h_conn (p_tasks s ! i)) = (h_pc (p_tasks s ! i) = H_Done)"
    by (simp add: task_inv_def)
qed

theorem close_deferred_regardless_of_write_witness:
  "read_err 0 (ex_world ex_client) = None
   \<and> write_err 0 (with_write_fail 0 ex_pipe (ex_world ex_client)) = ex_pipe
   \<and> h_deferred (fst (hsteps 4 (new_task 0, with_write_fail 0 ex_pipe (ex_world ex_client)))) =
       [DeferClose 0]
   \<and> h_pc (fst (do 0 (with_write_fail 0 ex_pipe (ex_world ex_client)))) = H_Done
   \<and> closed (conns (snd (do 0 (with_write_fail 0 ex_pipe (ex_world ex_client)))) ! 0)
   \<and> h_pc (fst (do 0 (ex_world ex_client))) = H_Done
   \<and> closed (conns (snd (do 0 (ex_world ex_client))) ! 0)
   \<and> closed (conns (p_world ex_done) ! 0)"
proof -
  have a: "read_err 0 (ex_world ex_client) = None" by (simp add: ex_read_ok ex_client_def)
  have d: "h_pc (fst (do 0 (ex_world ex_client))) = H_Done" by (simp add: do_ok[OF a])
  have e: "ex_done =
     run [Main, Main, Main, Main, Main, Handler 0, Handler 0, Handler 0, Handler 0, Handler 0]
       (boot None [Incoming ex_client]) \<and> 0 < length (p_tasks ex_done)"
    using ex_done_facts by (simp add: ex_done_def)
  note t = close_deferred_regardless_of_write[of 0 "ex_world ex_client" ex_pipe ex_done
      "[Main, Main, Main, Main, Main, Handler 0, Handler 0, Handler 0, Handler 0, Handler 0]"
      None "[Incoming ex_client]" 0]
  from t a have 1:
    "h_deferred (fst (hsteps 4 (new_task 0, with_write_fail 0 ex_pipe (ex_world ex_client)))) =
       [DeferClose 0]
     \<and> h_pc (fst (do 0 (with_write_fail 0 ex_pipe (ex_world ex_client)))) = H_Done
     \<and> closed (conns (snd (do 0 (with_write_fail 0 ex_pipe (ex_world ex_client)))) ! 0)"
    by blast
  from t d have 2: "closed (conns (snd (do 0 (ex_world ex_client))) ! 0)" by blast
  from t e have "closed (conns (p_world ex_done) ! h_conn (p_tasks ex_done ! 0)) =
      (h_pc (p_tasks ex_done ! 0) = H_Done)" by blast
  then have 3: "closed (conns (p_world ex_done) ! 0)" using ex_done_facts by simp
  show ?thesis using a d 1 2 3 by (simp add: write_err_with_write_fail)
qed

text \<open>
  Claim C9. When the read fails, \<^verbatim>\<open>do\<close> ends in its first statement with the process
  exited: the goroutine never gets further however often it is stepped, nothing has been
  deferred, no close of the connection is among its calls, and the store of connections
  is unchanged. In the running process, under every schedule, a goroutine whose read has
  failed has nothing deferred, no close of its connection has ever been called, and the
  connection is not closed.
\<close>

theorem read_failure_never_closes:
  "(read_err r w = Some e \<longrightarrow>
        hsteps (Suc n) (new_task r, w) = do r w
      \<and> h_pc (fst (do r w)) = H_Dead
      \<and> h_deferred (fst (do r w)) = []
      \<and> exited (snd (do r w)) = Some 1
      \<and> EvClose r \<notin> set (do_events r w)
      \<and> conns (snd (do r w)) = conns w)
   \<and> (s = run sched (boot lf bl) \<and> i < length (p_tasks s) \<and> h_pc (p_tasks s ! i) = H_Dead \<longrightarrow>
        h_deferred (p_tasks s ! i) = []
      \<and> EvClose (h_conn (p_tasks s ! i)) \<notin> set (trace (p_world s))
      \<and> \<not> closed (conns (p_world s) ! h_conn (p_tasks s ! i)))"
proof (intro conjI impI)
  assume a: "read_err r w = Some e"
  show "hsteps (Suc n) (new_task r, w) = do r w" by (rule hsteps_fail[OF a])
  show "h_pc (fst (do r w)) = H_Dead" by (simp add: do_fail[OF a])
  show "h_deferred (fst (do r w)) = []" by (simp add: do_fail[OF a])
  show "exited (snd (do r w)) = Some 1" by (simp add: do_fail[OF a])
  show "EvClose r \<notin> set (do_events r w)" by (simp add: do_events_fail[OF a])
  show "conns (snd (do r w)) = conns w" by (simp add: do_fail[OF a])
next
  assume a: "s = run sched (boot lf bl) \<and> i < length (p_tasks s) \<and> h_pc (p_tasks s ! i) = H_Dead"
  then have t: "task_inv (p_world s) (p_tasks s ! i)" using reach_task_inv by blast
  from a have d: "h_pc (p_tasks s ! i) = H_Dead" by blast
  from t d show "h_deferred (p_tasks s ! i) = []" by (simp add: task_inv_def)
  from t d show "\<not> closed (conns (p_world s) ! h_conn (p_tasks s ! i))" by (simp add: task_inv_def)
  from t d have "conn_trace (h_conn (p_tasks s ! i)) (trace (p_world s)) =
      [EvRead (h_conn (p_tasks s ! i)) 1024]"
    by (simp add: task_inv_def)
  then have "EvClose (h_conn (p_tasks s ! i)) \<notin>
      set (conn_trace (h_conn (p_tasks s ! i)) (trace (p_world s)))" by simp
  then show "EvClose (h_conn (p_tasks s ! i)) \<notin> set (trace (p_world s))"
    by (simp add: close_conn_trace)
qed

theorem read_failure_never_closes_witness:
  "read_err 0 (ex_world (ex_client\<lparr>read_fail := Some ex_eof\<rparr>)) = Some ex_eof
   \<and> h_pc (fst (do 0 (ex_world (ex_client\<lparr>read_fail := Some ex_eof\<rparr>)))) = H_Dead
   \<and> h_deferred (fst (do 0 (ex_world (ex_client\<lparr>read_fail := Some ex_eof\<rparr>)))) = []
   \<and> EvClose 0 \<notin> set (do_events 0 (ex_world (ex_client\<lparr>read_fail := Some ex_eof\<rparr>)))
   \<and> \<not> closed (conns (snd (do 0 (ex_world (ex_client\<lparr>read_fail := Some ex_eof\<rparr>)))) ! 0)
   \<and> h_pc (p_tasks ex_dead ! 0) = H_Dead
   \<and> EvClose 0 \<notin> set (trace (p_world ex_dead))
   \<and> \<not> closed (conns (p_world ex_dead) ! 0)"
proof -
  have a: "read_err 0 (ex_world (ex_client\<lparr>read_fail := Some ex_eof\<rparr>)) = Some ex_eof"
    by (simp add: ex_read_fail)
  have e: "ex_dead =
     run [Main, Main, Main, Main, Main, Handler 0]
       (boot None [Incoming (ex_client\<lparr>read_fail := Some ex_eof\<rparr>)])
     \<and> 0 < length (p_tasks ex_dead) \<and> h_pc (p_tasks ex_dead ! 0) = H_Dead"
    using ex_dead_facts by (simp add: ex_dead_def)
  note t = read_failure_never_closes[of 0 "ex_world (ex_client\<lparr>read_fail := Some ex_eof\<rparr>)"
      ex_eof 0 ex_dead "[Main, Main, Main, Main, Main, Handler 0]" None
      "[Incoming (ex_client\<lparr>read_fail := Some ex_eof\<rparr>)]" 0]
  from t a have 1:
    "h_pc (fst (do 0 (ex_world (ex_client\<lparr>read_fail := Some ex_eof\<rparr>)))) = H_Dead
     \<and> h_deferred (fst (do 0 (ex_world (ex_client\<lparr>read_fail := Some ex_eof\<rparr>)))) = []
     \<and> EvClose 0 \<notin> set (do_events 0 (ex_world (ex_client\<lparr>read_fail := Some ex_eof\<rparr>)))
     \<and> conns (snd (do 0 (ex_world (ex_client\<lparr>read_fail := Some ex_eof\<rparr>)))) =
         conns (ex_world (ex_client\<lparr>read_fail := Some ex_eof\<rparr>))"
    by blast
  then have 2: "\<not> closed (conns (snd (do 0 (ex_world (ex_client\<lparr>read_fail := Some ex_eof\<rparr>)))) ! 0)"
    by (simp add: ex_world_def open_conn_def)
  from t e have "EvClose (h_conn (p_tasks ex_dead ! 0)) \<notin> set (trace (p_world ex_dead))
      \<and> \<not> closed (conns (p_world ex_dead) ! h_conn (p_tasks ex_dead ! 0))" by blast
  then have 3: "EvClose 0 \<notin> set (trace (p_world ex_dead)) \<and> \<not> closed (conns (p_world ex_dead) ! 0)"
    using ex_dead_facts by simp
  show ?thesis using a e 1 2 3 by blast
qed

text \<open>
  Claim C10. Run \<^verbatim>\<open>do\<close> in two worlds that differ only in the outcome of the write on
  the connection, any outcome against a successful write. The goroutine's final state, the
  calls made, the exit status and which connections are closed are the same. When the
  read succeeds, the failing write leaves the exit status as it was, nothing is logged,
  the call completes and the connection is closed.
\<close>

theorem write_result_discarded:
  "fst (do r (with_write_fail r res w)) = fst (do r (with_write_fail r None w))
   \<and> trace (snd (do r (with_write_fail r res w))) = trace (snd (do r (with_write_fail r None w)))
   \<and> exited (snd (do r (with_write_fail r res w))) = exited (snd (do r (with_write_fail r None w)))
   \<and> map closed (conns (snd (do r (with_write_fail r res w)))) =
       map closed (conns (snd (do r (with_write_fail r None w))))
   \<and> (read_err r w = None \<longrightarrow>
        write_err r (with_write_fail r res w) = res
      \<and> exited (snd (do r (with_write_fail r res w))) = exited w
      \<and> (\<forall>m. EvLogFatal m \<notin> set (do_events r (with_write_fail r res w)))
      \<and> h_pc (fst (do r (with_write_fail r res w))) = H_Done
      \<and> closed (conns (snd (do r (with_write_fail r res w))) ! r))"
proof (cases "read_err r w")
  case None
  have a: "read_err r (with_write_fail r res w) = None" for res using None by simp
  from read_err_NoneD[OF None] have v: "r < length (conns w)" by simp
  show ?thesis
    using None v
    by (simp add: do_ok[OF a] do_events_ok[OF a] write_err_with_write_fail)
       (simp add: with_write_fail_def upd_conn_def read_count_def map_update)
next
  case (Some e)
  have a: "read_err r (with_write_fail r res w) = Some e" for res using Some by simp
  show ?thesis
    using Some
    by (simp add: do_fail[OF a]) (simp add: with_write_fail_def upd_conn_def map_update)
qed

theorem write_result_discarded_witness:
  "read_err 0 (ex_world ex_client) = None
   \<and> write_err 0 (with_write_fail 0 ex_pipe (ex_world ex_client)) = ex_pipe
   \<and> exited (snd (do 0 (with_write_fail 0 ex_pipe (ex_world ex_client)))) = None
   \<and> do_events 0 (with_write_fail 0 ex_pipe (ex_world ex_client)) = do_events 0 (ex_world ex_client)
   \<and> closed (conns (snd (do 0 (with_write_fail 0 ex_pipe (ex_world ex_client)))) ! 0)"
proof -
  have a: "read_err 0 (ex_world ex_client) = None" by (simp add: ex_read_ok ex_client_def)
  note t = write_result_discarded[of 0 ex_pipe "ex_world ex_client"]
  have b: "read_err 0 (with_write_fail 0 ex_pipe (ex_world ex_client)) = None"
    using a by simp
  from t a have 1: "write_err 0 (with_write_fail 0 ex_pipe (ex_world ex_client)) = ex_pipe"
    by blast
  from t a have "exited (snd (do 0 (with_write_fail 0 ex_pipe (ex_world ex_client)))) =
      exited (ex_world ex_client)"
    by blast
  then have 2: "exited (snd (do 0 (with_write_fail 0 ex_pipe (ex_world ex_client)))) = None"
    by (simp add: ex_world_def)
  from t a have 3: "closed (conns (snd (do 0 (with_write_fail 0 ex_pipe (ex_world ex_client)))) ! 0)"
    by blast
  show ?thesis using a 1 2 3 by (simp add: do_events_ok[OF a] do_events_ok[OF b])
qed

end
